theory Spec2Isabelle
  imports Complex_Main "HOL-Library.Word"
begin

section \<open>Runtime panics\<close>

text \<open>
  Go code that divides by zero, indexes a slice out of range, allocates a slice of
  negative length or dereferences a nil pointer panics. Every function below that can
  panic returns \<open>panic + 'a\<close>, with \<open>Inl\<close> for the panic.
\<close>

datatype panic = DivideByZero | IndexOutOfRange | NegativeLen | NilDereference

section \<open>package buffer: the ring buffer\<close>

text \<open>
  \<open>Sample\<close> is \<open>struct { Ts int64; Val float64 }\<close>. \<open>Ts\<close> is the 64-bit pattern
  (read as a signed number with \<open>sint\<close>). The aggregator stores and copies float64
  values and never computes with them; they are modelled by the real number they
  denote, so non-finite floats are outside the model.

  \<open>Ring\<close> is \<open>struct { data []Sample; idx atomic.Uint64; size uint64 }\<close>; the field
  \<open>size\<close> is called \<open>rsize\<close> here. The Go type \<open>int\<close> is the 64-bit signed integer of
  the platforms the aggregator is built for: a 64-bit word read with \<open>sint\<close>, so that
  the conversion \<open>uint64(n)\<close> keeps the bits.
\<close>

type_synonym float64 = real

record Sample =
  Ts :: "64 word"
  Val :: float64

definition zero_Sample :: Sample where
  "zero_Sample = \<lparr>Ts = 0, Val = 0\<rparr>"

record Ring =
  data :: "Sample list"
  idx :: "64 word"
  rsize :: "64 word"

text \<open>\<open>NewRing(size int)\<close>: \<open>make([]Sample, size)\<close> panics on a negative length.\<close>

definition NewRing :: "64 word \<Rightarrow> panic + Ring" where
  "NewRing sz =
     (if sz <s 0 then Inl NegativeLen
      else Inr \<lparr>data = replicate (unat sz) zero_Sample, idx = 0, rsize = sz\<rparr>)"

text \<open>
  The index expression \<open>r.data[i%r.size]\<close>, shared by \<open>Push\<close>, \<open>SnapshotLast\<close> and
  \<open>Latest\<close>: the slot number, or the panic of the division or of the bounds check.
\<close>

definition slot :: "Ring \<Rightarrow> 64 word \<Rightarrow> panic + nat" where
  "slot r i =
     (if rsize r = 0 then Inl DivideByZero
      else if unat (i mod rsize r) < length (data r) then Inr (unat (i mod rsize r))
      else Inl IndexOutOfRange)"

text \<open>\<open>Push\<close>: \<open>i := r.idx.Add(1) - 1; r.data[i%r.size] = s\<close>, with one writer.\<close>

definition Push :: "Ring \<Rightarrow> Sample \<Rightarrow> panic + Ring" where
  "Push r s =
     (let i = (idx r + 1) - 1 in
      case slot r i of
        Inl p \<Rightarrow> Inl p
      | Inr k \<Rightarrow> Inr (r\<lparr>data := (data r)[k := s], idx := idx r + 1\<rparr>))"

text \<open>The loop \<open>for i := start; i < currentIdx; i++ { result = append(result, ...) }\<close>.\<close>

function SnapshotLast_loop ::
  "Ring \<Rightarrow> 64 word \<Rightarrow> 64 word \<Rightarrow> Sample list \<Rightarrow> panic + Sample list" where
  "SnapshotLast_loop r i currentIdx result =
     (if i < currentIdx then
        (case slot r i of
           Inl p \<Rightarrow> Inl p
         | Inr k \<Rightarrow> SnapshotLast_loop r (i + 1) currentIdx (result @ [data r ! k]))
      else Inr result)"
  by pat_completeness auto
termination
proof (relation "measure (\<lambda>(r, i, c, res). unat c - unat i)")
  show "wf (measure (\<lambda>(r, i, c, res). unat c - unat i))" by simp
next
  fix r :: Ring and i currentIdx :: "64 word" and result :: "Sample list" and k :: nat
  assume lt: "i < currentIdx"
  then have "unat (i + 1) = Suc (unat i)" by unat_arith
  moreover from lt have "unat i < unat currentIdx" by (simp add: word_less_nat_alt)
  ultimately show "((r, i + 1, currentIdx, result @ [data r ! k]), (r, i, currentIdx, result))
      \<in> measure (\<lambda>(r, i, c, res). unat c - unat i)"
    by simp
qed

declare SnapshotLast_loop.simps [simp del]

text \<open>\<open>SnapshotLast(n int)\<close>: \<open>count := uint64(n)\<close>, clamped to the size and to the index.\<close>

definition SnapshotLast :: "Ring \<Rightarrow> 64 word \<Rightarrow> panic + Sample list" where
  "SnapshotLast r n =
     (let currentIdx = idx r;
          count = n;
          count = (if count > rsize r then rsize r else count);
          count = (if count > currentIdx then currentIdx else count);
          start = currentIdx - count
      in SnapshotLast_loop r start currentIdx [])"

definition Latest :: "Ring \<Rightarrow> panic + (Sample \<times> bool)" where
  "Latest r =
     (let currentIdx = idx r in
      if currentIdx = 0 then Inr (zero_Sample, False)
      else case slot r (currentIdx - 1) of
             Inl p \<Rightarrow> Inl p
           | Inr k \<Rightarrow> Inr (data r ! k, True))"

definition Count :: "Ring \<Rightarrow> 64 word" where
  "Count r = idx r"

text \<open>\<open>Len\<close> returns an \<open>int\<close>: the conversions \<open>int(r.size)\<close>, \<open>int(count)\<close> keep the bits.\<close>

definition Len :: "Ring \<Rightarrow> 64 word" where
  "Len r = (let count = idx r in if count > rsize r then rsize r else count)"

text \<open>A sequence of consecutive pushes by the single writer; a panic ends it.\<close>

fun push_all :: "Ring \<Rightarrow> Sample list \<Rightarrow> panic + Ring" where
  "push_all r [] = Inr r"
| "push_all r (s # ss) = (case Push r s of Inl p \<Rightarrow> Inl p | Inr r' \<Rightarrow> push_all r' ss)"

text \<open>
  The representation invariant. \<open>ring_holds r hs\<close>: the ring \<open>r\<close> has received exactly the
  samples \<open>hs\<close>, fewer than \<open>2 ^ 64\<close> of them, and the slots of the window
  \<open>[W - C, W)\<close> hold the last samples.
\<close>

definition ring_inv :: "Ring \<Rightarrow> bool" where
  "ring_inv r = (length (data r) = unat (rsize r) \<and> rsize r \<noteq> 0)"

definition ring_holds :: "Ring \<Rightarrow> Sample list \<Rightarrow> bool" where
  "ring_holds r hs =
     (ring_inv r \<and> idx r = of_nat (length hs) \<and> length hs < 2 ^ 64 \<and>
      (\<forall>j < length hs. length hs \<le> j + unat (rsize r) \<longrightarrow>
          data r ! (j mod unat (rsize r)) = hs ! j))"

text \<open>What a push makes of a ring that satisfies the invariant (see \<open>Push_inv\<close>).\<close>

definition pushed :: "Ring \<Rightarrow> Sample \<Rightarrow> Ring" where
  "pushed r s = r\<lparr>data := (data r)[unat (idx r) mod unat (rsize r) := s], idx := idx r + 1\<rparr>"

text \<open>
  The wrap-around scenario: a fresh ring of capacity 4 and the six samples with values
  and timestamps 1 to 6.
\<close>

definition fresh4 :: Ring where
  "fresh4 = \<lparr>data = replicate 4 zero_Sample, idx = 0, rsize = 4\<rparr>"

text \<open>The ring that \<open>NewRing(0)\<close> returns: no slot, size zero.\<close>

definition fresh0 :: Ring where
  "fresh0 = \<lparr>data = [], idx = 0, rsize = 0\<rparr>"

definition six_samples :: "Sample list" where
  "six_samples = [\<lparr>Ts = 1, Val = 1\<rparr>, \<lparr>Ts = 2, Val = 2\<rparr>, \<lparr>Ts = 3, Val = 3\<rparr>,
                  \<lparr>Ts = 4, Val = 4\<rparr>, \<lparr>Ts = 5, Val = 5\<rparr>, \<lparr>Ts = 6, Val = 6\<rparr>]"


section \<open>package buffer: histogram rings and the registry\<close>

definition DefaultRingSize :: "64 word" where
  "DefaultRingSize = 1000"

definition HistogramRingSize :: "64 word" where
  "HistogramRingSize = 500"

record MetricKey =
  Service :: string
  Name :: string

text \<open>\<open>func (k MetricKey) String() string\<close>: \<open>fmt.Sprintf("%s/%s", k.Service, k.Name)\<close>.\<close>

definition MetricKey_String :: "MetricKey \<Rightarrow> string" where
  "MetricKey_String k = Service k @ ''/'' @ Name k"

record HistogramData =
  HistogramData_Ts :: "64 word"
  Bounds :: "float64 list"
  Counts :: "64 word list"

definition zero_HistogramData :: HistogramData where
  "zero_HistogramData = \<lparr>HistogramData_Ts = 0, Bounds = [], Counts = []\<rparr>"

text \<open>
  \<open>HistogramRing\<close> is \<open>struct { data []HistogramData; idx uint64; size uint64; mu }\<close>;
  its methods run under the mutex, one at a time.
\<close>

record HistogramRing =
  hdata :: "HistogramData list"
  hidx :: "64 word"
  hsize :: "64 word"

definition NewHistogramRing :: "64 word \<Rightarrow> panic + HistogramRing" where
  "NewHistogramRing sz =
     (if sz <s 0 then Inl NegativeLen
      else Inr \<lparr>hdata = replicate (unat sz) zero_HistogramData, hidx = 0, hsize = sz\<rparr>)"

definition hslot :: "HistogramRing \<Rightarrow> 64 word \<Rightarrow> panic + nat" where
  "hslot r i =
     (if hsize r = 0 then Inl DivideByZero
      else if unat (i mod hsize r) < length (hdata r) then Inr (unat (i mod hsize r))
      else Inl IndexOutOfRange)"

text \<open>\<open>r.data[r.idx%r.size] = h; r.idx++\<close>.\<close>

definition HistogramRing_Push :: "HistogramRing \<Rightarrow> HistogramData \<Rightarrow> panic + HistogramRing" where
  "HistogramRing_Push r h =
     (case hslot r (hidx r) of
        Inl p \<Rightarrow> Inl p
      | Inr k \<Rightarrow> Inr (r\<lparr>hdata := (hdata r)[k := h], hidx := hidx r + 1\<rparr>))"

definition HistogramRing_Latest :: "HistogramRing \<Rightarrow> panic + (HistogramData \<times> bool)" where
  "HistogramRing_Latest r =
     (if hidx r = 0 then Inr (zero_HistogramData, False)
      else case hslot r (hidx r - 1) of
             Inl p \<Rightarrow> Inl p
           | Inr k \<Rightarrow> Inr (hdata r ! k, True))"

text \<open>
  A Go map is an association list with distinct keys: \<open>map_of\<close> looks a key up,
  \<open>gomap_store\<close> is the assignment \<open>m[k] = v\<close>, and the order of the list is the order
  in which a \<open>range\<close> loop happens to visit the entries.

  The registry's maps hold pointers. \<open>*Ring\<close> is an index into \<open>rings\<close> and
  \<open>*HistogramRing\<close> an index into \<open>hrings\<close>, the two parts of the heap where the rings
  live; allocation appends. Two calls return the same instance when they return the
  same index.
\<close>

fun gomap_store :: "'k \<Rightarrow> 'v \<Rightarrow> ('k \<times> 'v) list \<Rightarrow> ('k \<times> 'v) list" where
  "gomap_store k v [] = [(k, v)]"
| "gomap_store k v (p # ps) = (if fst p = k then (k, v) # ps else p # gomap_store k v ps)"

record Registry =
  gauges :: "(MetricKey \<times> nat) list"
  counters :: "(MetricKey \<times> nat) list"
  histograms :: "(MetricKey \<times> nat) list"
  rings :: "Ring list"
  hrings :: "HistogramRing list"

definition NewRegistry :: Registry where
  "NewRegistry = \<lparr>gauges = [], counters = [], histograms = [], rings = [], hrings = []\<rparr>"

text \<open>
  \<open>GetRing\<close>: the lookup under the read lock, then, under the write lock, the second
  lookup and the creation. \<open>GetRing_locked\<close> is the part under the write lock.
\<close>

definition GetRing_locked :: "Registry \<Rightarrow> MetricKey \<Rightarrow> panic + (nat \<times> Registry)" where
  "GetRing_locked r key =
     (case map_of (gauges r) key of
        Some ring \<Rightarrow> Inr (ring, r)
      | None \<Rightarrow>
          (case NewRing DefaultRingSize of
             Inl p \<Rightarrow> Inl p
           | Inr new \<Rightarrow>
               (let ring = length (rings r) in
                Inr (ring, r\<lparr>rings := rings r @ [new],
                              gauges := gomap_store key ring (gauges r)\<rparr>))))"

definition GetRing :: "Registry \<Rightarrow> string \<Rightarrow> string \<Rightarrow> panic + (nat \<times> Registry)" where
  "GetRing r service name =
     (let key = \<lparr>Service = service, Name = name\<rparr> in
      case map_of (gauges r) key of
        Some ring \<Rightarrow> Inr (ring, r)
      | None \<Rightarrow> GetRing_locked r key)"

definition GetCounterRing_locked :: "Registry \<Rightarrow> MetricKey \<Rightarrow> panic + (nat \<times> Registry)" where
  "GetCounterRing_locked r key =
     (case map_of (counters r) key of
        Some ring \<Rightarrow> Inr (ring, r)
      | None \<Rightarrow>
          (case NewRing DefaultRingSize of
             Inl p \<Rightarrow> Inl p
           | Inr new \<Rightarrow>
               (let ring = length (rings r) in
                Inr (ring, r\<lparr>rings := rings r @ [new],
                              counters := gomap_store key ring (counters r)\<rparr>))))"

definition GetCounterRing :: "Registry \<Rightarrow> string \<Rightarrow> string \<Rightarrow> panic + (nat \<times> Registry)" where
  "GetCounterRing r service name =
     (let key = \<lparr>Service = service, Name = name\<rparr> in
      case map_of (counters r) key of
        Some ring \<Rightarrow> Inr (ring, r)
      | None \<Rightarrow> GetCounterRing_locked r key)"

definition GetHistogramRing_locked :: "Registry \<Rightarrow> MetricKey \<Rightarrow> panic + (nat \<times> Registry)" where
  "GetHistogramRing_locked r key =
     (case map_of (histograms r) key of
        Some ring \<Rightarrow> Inr (ring, r)
      | None \<Rightarrow>
          (case NewHistogramRing HistogramRingSize of
             Inl p \<Rightarrow> Inl p
           | Inr new \<Rightarrow>
               (let ring = length (hrings r) in
                Inr (ring, r\<lparr>hrings := hrings r @ [new],
                              histograms := gomap_store key ring (histograms r)\<rparr>))))"

definition GetHistogramRing :: "Registry \<Rightarrow> string \<Rightarrow> string \<Rightarrow> panic + (nat \<times> Registry)" where
  "GetHistogramRing r service name =
     (let key = \<lparr>Service = service, Name = name\<rparr> in
      case map_of (histograms r) key of
        Some ring \<Rightarrow> Inr (ring, r)
      | None \<Rightarrow> GetHistogramRing_locked r key)"

text \<open>
  \<open>ring.Push(s)\<close> through a pointer: the ring at that index of the heap is replaced by
  the pushed one. A pointer outside the heap does not arise; it is a nil dereference.
\<close>

definition Push_at :: "Registry \<Rightarrow> nat \<Rightarrow> Sample \<Rightarrow> panic + Registry" where
  "Push_at r ring s =
     (if ring < length (rings r) then
        (case Push (rings r ! ring) s of
           Inl p \<Rightarrow> Inl p
         | Inr new \<Rightarrow> Inr (r\<lparr>rings := (rings r)[ring := new]\<rparr>))
      else Inl NilDereference)"

definition HistogramRing_Push_at :: "Registry \<Rightarrow> nat \<Rightarrow> HistogramData \<Rightarrow> panic + Registry" where
  "HistogramRing_Push_at r ring h =
     (if ring < length (hrings r) then
        (case HistogramRing_Push (hrings r ! ring) h of
           Inl p \<Rightarrow> Inl p
         | Inr new \<Rightarrow> Inr (r\<lparr>hrings := (hrings r)[ring := new]\<rparr>))
      else Inl NilDereference)"

record LatestSnapshot =
  Gauges :: "(MetricKey \<times> Sample) list"
  Counters :: "(MetricKey \<times> Sample) list"
  Histograms :: "(MetricKey \<times> HistogramData) list"

text \<open>
  The loops of \<open>Registry.LatestSnapshot\<close>:
  \<open>for key, ring := range r.gauges { if s, ok := ring.Latest(); ok { snapshot.Gauges[key] = s } }\<close>.
\<close>

fun latest_scalars ::
  "Ring list \<Rightarrow> (MetricKey \<times> nat) list \<Rightarrow> (MetricKey \<times> Sample) list \<Rightarrow>
   panic + (MetricKey \<times> Sample) list" where
  "latest_scalars heap [] acc = Inr acc"
| "latest_scalars heap ((key, ring) # rest) acc =
     (if ring < length heap then
        (case Latest (heap ! ring) of
           Inl p \<Rightarrow> Inl p
         | Inr (s, ok) \<Rightarrow>
             latest_scalars heap rest (if ok then gomap_store key s acc else acc))
      else Inl NilDereference)"

fun latest_histograms ::
  "HistogramRing list \<Rightarrow> (MetricKey \<times> nat) list \<Rightarrow> (MetricKey \<times> HistogramData) list \<Rightarrow>
   panic + (MetricKey \<times> HistogramData) list" where
  "latest_histograms heap [] acc = Inr acc"
| "latest_histograms heap ((key, ring) # rest) acc =
     (if ring < length heap then
        (case HistogramRing_Latest (heap ! ring) of
           Inl p \<Rightarrow> Inl p
         | Inr (h, ok) \<Rightarrow>
             latest_histograms heap rest (if ok then gomap_store key h acc else acc))
      else Inl NilDereference)"

definition Registry_LatestSnapshot :: "Registry \<Rightarrow> panic + LatestSnapshot" where
  "Registry_LatestSnapshot r =
     (case latest_scalars (rings r) (gauges r) [] of
        Inl p \<Rightarrow> Inl p
      | Inr g \<Rightarrow>
          (case latest_scalars (rings r) (counters r) [] of
             Inl p \<Rightarrow> Inl p
           | Inr c \<Rightarrow>
               (case latest_histograms (hrings r) (histograms r) [] of
                  Inl p \<Rightarrow> Inl p
                | Inr h \<Rightarrow> Inr \<lparr>Gauges = g, Counters = c, Histograms = h\<rparr>)))"

text \<open>
  The well-formed heaps: the maps have distinct keys, every pointer is inside its heap,
  no ring is reachable from two entries, and every ring has as many slots as its
  size, which is not zero. \<open>NewRegistry\<close> is well formed and the operations keep it.
\<close>

definition hring_inv :: "HistogramRing \<Rightarrow> bool" where
  "hring_inv r = (length (hdata r) = unat (hsize r) \<and> hsize r \<noteq> 0)"

definition hpushed :: "HistogramRing \<Rightarrow> HistogramData \<Rightarrow> HistogramRing" where
  "hpushed r h = r\<lparr>hdata := (hdata r)[unat (hidx r) mod unat (hsize r) := h], hidx := hidx r + 1\<rparr>"

definition reg_wf :: "Registry \<Rightarrow> bool" where
  "reg_wf r =
     (distinct (map fst (gauges r)) \<and> distinct (map fst (counters r)) \<and>
      distinct (map fst (histograms r)) \<and>
      distinct (map snd (gauges r) @ map snd (counters r)) \<and>
      distinct (map snd (histograms r)) \<and>
      list_all (\<lambda>a. a < length (rings r)) (map snd (gauges r) @ map snd (counters r)) \<and>
      list_all (\<lambda>a. a < length (hrings r)) (map snd (histograms r)) \<and>
      list_all ring_inv (rings r) \<and> list_all hring_inv (hrings r))"

text \<open>
  What \<open>Latest\<close> contributes to a snapshot: the sample when the flag is true, nothing
  when it is false.
\<close>

definition latest_value :: "Ring \<Rightarrow> Sample option" where
  "latest_value r = (case Latest r of Inr (s, True) \<Rightarrow> Some s | _ \<Rightarrow> None)"

definition latest_histogram :: "HistogramRing \<Rightarrow> HistogramData option" where
  "latest_histogram r = (case HistogramRing_Latest r of Inr (h, True) \<Rightarrow> Some h | _ \<Rightarrow> None)"

text \<open>\<open>keeps_bindings r r'\<close>: every key bound to a pointer in \<open>r\<close> is bound to it in \<open>r'\<close>.\<close>

definition keeps_bindings :: "Registry \<Rightarrow> Registry \<Rightarrow> bool" where
  "keeps_bindings r r' =
     ((\<forall>k a. map_of (gauges r) k = Some a \<longrightarrow> map_of (gauges r') k = Some a) \<and>
      (\<forall>k a. map_of (counters r) k = Some a \<longrightarrow> map_of (counters r') k = Some a) \<and>
      (\<forall>k a. map_of (histograms r) k = Some a \<longrightarrow> map_of (histograms r') k = Some a))"

section \<open>package ingest: the messages and the server\<close>

text \<open>
  The message types of the ingest stream. A pointer that may be nil is an \<open>option\<close>:
  the elements of \<open>[]*Metric\<close> and \<open>[]*MetricSample\<close>, the \<open>*Histogram\<close> of the
  histogram variant, and the interface value \<open>Value\<close> itself (no variant set).
\<close>

record Histogram =
  Histogram_Bounds :: "float64 list"
  Histogram_Counts :: "64 word list"

datatype isMetricSample_Value =
    MetricSample_Gauge float64
  | MetricSample_Counter "64 word"
  | MetricSample_Histogram "Histogram option"

record MetricSample =
  TimestampNs :: "64 word"
  Value :: "isMetricSample_Value option"

record Metric =
  Metric_Name :: string
  Labels :: "(string \<times> string) list"
  Samples :: "MetricSample option list"



text \<open>
  The conversion \<open>float64(v.Counter)\<close> of a uint64: exact below \<open>2 ^ 53\<close>, otherwise
  rounded to 53 significant bits, to nearest, ties to even.
\<close>

fun bit_length :: "nat \<Rightarrow> nat" where
  "bit_length n = (if n = 0 then 0 else Suc (bit_length (n div 2)))"

declare bit_length.simps [simp del]

definition float64_of_uint64 :: "64 word \<Rightarrow> float64" where
  "float64_of_uint64 c =
     (let n = unat c;
          e = bit_length n - 53;
          q = n div 2 ^ e;
          r = n mod 2 ^ e
      in real ((if 2 * r > 2 ^ e \<or> (2 * r = 2 ^ e \<and> odd q) then q + 1 else q) * 2 ^ e))"

text \<open>
  The body of the loop of \<open>processMetric\<close>, for one sample: the type switch on
  \<open>sample.Value\<close>. No case matches a nil interface value and the switch has no default.
\<close>

definition processSample ::
  "Registry \<Rightarrow> string \<Rightarrow> string \<Rightarrow> MetricSample option \<Rightarrow> panic + Registry" where
  "processSample r service name sample =
     (case sample of
        None \<Rightarrow> Inl NilDereference
      | Some sample \<Rightarrow>
          (let ts = TimestampNs sample in
           case Value sample of
             None \<Rightarrow> Inr r
           | Some (MetricSample_Gauge v) \<Rightarrow>
               (case GetRing r service name of
                  Inl p \<Rightarrow> Inl p
                | Inr (ring, r') \<Rightarrow> Push_at r' ring \<lparr>Ts = ts, Val = v\<rparr>)
           | Some (MetricSample_Counter v) \<Rightarrow>
               (case GetCounterRing r service name of
                  Inl p \<Rightarrow> Inl p
                | Inr (ring, r') \<Rightarrow> Push_at r' ring \<lparr>Ts = ts, Val = float64_of_uint64 v\<rparr>)
           | Some (MetricSample_Histogram v) \<Rightarrow>
               (case GetHistogramRing r service name of
                  Inl p \<Rightarrow> Inl p
                | Inr (ring, r') \<Rightarrow>
                    (case v of
                       None \<Rightarrow> Inl NilDereference
                     | Some h \<Rightarrow>
                         HistogramRing_Push_at r' ring
                           \<lparr>HistogramData_Ts = ts, Bounds = Histogram_Bounds h,
                            Counts = Histogram_Counts h\<rparr>))))"

fun processSamples ::
  "Registry \<Rightarrow> string \<Rightarrow> string \<Rightarrow> MetricSample option list \<Rightarrow> panic + Registry" where
  "processSamples r service name [] = Inr r"
| "processSamples r service name (sample # rest) =
     (case processSample r service name sample of
        Inl p \<Rightarrow> Inl p
      | Inr r' \<Rightarrow> processSamples r' service name rest)"

text \<open>\<open>processMetric(service, instance string, metric *Metric)\<close>; it returns nothing.\<close>

definition processMetric ::
  "Registry \<Rightarrow> string \<Rightarrow> string \<Rightarrow> Metric option \<Rightarrow> panic + Registry" where
  "processMetric r service instance metric =
     (case metric of
        None \<Rightarrow> Inl NilDereference
      | Some m \<Rightarrow> processSamples r service (Metric_Name m) (Samples m))"

fun processMetrics ::
  "Registry \<Rightarrow> string \<Rightarrow> string \<Rightarrow> Metric option list \<Rightarrow> panic + Registry" where
  "processMetrics r service instance [] = Inr r"
| "processMetrics r service instance (metric # rest) =
     (case processMetric r service instance metric of
        Inl p \<Rightarrow> Inl p
      | Inr r' \<Rightarrow> processMetrics r' service instance rest)"


section \<open>package ws: the hub\<close>

text \<open>
  The value that \<open>buildClientMessage\<close> hands to \<open>json.Marshal\<close>: the type tag, the
  timestamp and three maps from the key's string to \<open>{ts, val}\<close> or
  \<open>{ts, bounds, counts}\<close>. The encoder writes a map in the order of its keys, so these
  maps are functions. The encoding itself is not modelled; it fails on non-finite
  floats only, which are outside the model, so the message is never nil.
\<close>

datatype entry =
    ScalarEntry "64 word" float64
  | HistogramEntry "64 word" "float64 list" "64 word list"

record SnapshotMessage =
  msg_type :: string
  timestamp :: "64 word"
  msg_gauges :: "string \<rightharpoonup> entry"
  msg_counters :: "string \<rightharpoonup> entry"
  msg_histograms :: "string \<rightharpoonup> entry"

record Subscription =
  Sub_Service :: string
  Sub_Metric :: string

text \<open>
  \<open>Client\<close>: the buffered channel \<open>send\<close> (its queue and its capacity) and the
  subscriptions. The connection and the back pointer to the hub play no part.
\<close>

record Client =
  send :: "SnapshotMessage list"
  send_cap :: nat
  subs :: "Subscription list"

text \<open>
  \<open>Hub\<close>: \<open>clients\<close> is \<open>map[*Client]bool\<close>, given here as the map from the client
  pointers to the structs they point to (the bool is never read); a client is connected
  while its pointer is a key. \<open>updates\<close> is the queue of the channel of capacity 1000.
\<close>

record Hub =
  clients :: "(nat \<times> Client) list"
  updates :: "string list"



text \<open>
  \<open>HandleWebSocket\<close> after the upgrade: the new client, with \<open>make(chan []byte, 256)\<close>
  and no subscription, is registered by the hub's loop (\<open>h.clients[client] = true\<close>).
  \<open>unregister_client\<close> is the loop's other case, \<open>delete(h.clients, client)\<close>.
\<close>

definition new_client :: Client where
  "new_client = \<lparr>send = [], send_cap = 256, subs = []\<rparr>"

definition HandleWebSocket :: "Hub \<Rightarrow> nat \<Rightarrow> Hub" where
  "HandleWebSocket h client = h\<lparr>clients := gomap_store client new_client (clients h)\<rparr>"

definition unregister_client :: "Hub \<Rightarrow> nat \<Rightarrow> Hub" where
  "unregister_client h client = h\<lparr>clients := filter (\<lambda>(p, c). p \<noteq> client) (clients h)\<rparr>"

text \<open>
  The values \<open>{"ts": .., "val": ..}\<close> and \<open>{"ts": .., "bounds": .., "counts": ..}\<close>,
  and the loop \<open>for key, v := range m { result[key.String()] = ... }\<close> that
  \<open>convertGauges\<close>, \<open>convertCounters\<close> and \<open>convertHistograms\<close> share.
\<close>

definition scalar_entry :: "Sample \<Rightarrow> entry" where
  "scalar_entry s = ScalarEntry (Ts s) (Val s)"

definition histogram_entry :: "HistogramData \<Rightarrow> entry" where
  "histogram_entry h = HistogramEntry (HistogramData_Ts h) (Bounds h) (Counts h)"

fun convert_loop ::
  "('v \<Rightarrow> entry) \<Rightarrow> (MetricKey \<times> 'v) list \<Rightarrow> (string \<rightharpoonup> entry) \<Rightarrow> (string \<rightharpoonup> entry)" where
  "convert_loop mk [] result = result"
| "convert_loop mk ((key, v) # rest) result =
     convert_loop mk rest (result(MetricKey_String key \<mapsto> mk v))"

definition convertGauges :: "(MetricKey \<times> Sample) list \<Rightarrow> (string \<rightharpoonup> entry)" where
  "convertGauges gs = convert_loop scalar_entry gs Map.empty"

definition convertCounters :: "(MetricKey \<times> Sample) list \<Rightarrow> (string \<rightharpoonup> entry)" where
  "convertCounters cs = convert_loop scalar_entry cs Map.empty"

definition convertHistograms :: "(MetricKey \<times> HistogramData) list \<Rightarrow> (string \<rightharpoonup> entry)" where
  "convertHistograms hs = convert_loop histogram_entry hs Map.empty"

text \<open>
  The loop \<open>for _, sub := range client.subs\<close> of \<open>buildClientMessage\<close>, and
  \<open>sub_key\<close>, the key it builds from a subscription.
\<close>

definition sub_key :: "Subscription \<Rightarrow> MetricKey" where
  "sub_key sub = \<lparr>Service = Sub_Service sub, Name = Sub_Metric sub\<rparr>"

fun filter_subs ::
  "LatestSnapshot \<Rightarrow> Subscription list \<Rightarrow>
   (string \<rightharpoonup> entry) \<times> (string \<rightharpoonup> entry) \<times> (string \<rightharpoonup> entry) \<Rightarrow>
   (string \<rightharpoonup> entry) \<times> (string \<rightharpoonup> entry) \<times> (string \<rightharpoonup> entry)" where
  "filter_subs snapshot [] acc = acc"
| "filter_subs snapshot (sub # rest) (gs, cs, hs) =
     (let key = sub_key sub;
          gs' = (case map_of (Gauges snapshot) key of
                   Some g \<Rightarrow> gs(MetricKey_String key \<mapsto> scalar_entry g)
                 | None \<Rightarrow> gs);
          cs' = (case map_of (Counters snapshot) key of
                   Some c \<Rightarrow> cs(MetricKey_String key \<mapsto> scalar_entry c)
                 | None \<Rightarrow> cs);
          hs' = (case map_of (Histograms snapshot) key of
                   Some hist \<Rightarrow> hs(MetricKey_String key \<mapsto> histogram_entry hist)
                 | None \<Rightarrow> hs)
      in filter_subs snapshot rest (gs', cs', hs'))"


text \<open>\<open>buildClientMessage\<close>; \<open>now\<close> is what \<open>time.Now().UnixNano()\<close> returns in the call.\<close>

definition buildClientMessage :: "Client \<Rightarrow> LatestSnapshot \<Rightarrow> 64 word \<Rightarrow> SnapshotMessage" where
  "buildClientMessage client snapshot now =
     (if length (subs client) = 0 then
        \<lparr>msg_type = ''snapshot'', timestamp = now,
         msg_gauges = convertGauges (Gauges snapshot),
         msg_counters = convertCounters (Counters snapshot),
         msg_histograms = convertHistograms (Histograms snapshot)\<rparr>
      else
        (case filter_subs snapshot (subs client) (Map.empty, Map.empty, Map.empty) of
           (gs, cs, hs) \<Rightarrow>
             \<lparr>msg_type = ''snapshot'', timestamp = now,
              msg_gauges = gs, msg_counters = cs, msg_histograms = hs\<rparr>))"

text \<open>\<open>select { case client.send <- msg: default: }\<close>: a full channel drops the message.\<close>

definition try_send :: "Client \<Rightarrow> SnapshotMessage \<Rightarrow> Client" where
  "try_send client msg =
     (if length (send client) < send_cap client then client\<lparr>send := send client @ [msg]\<rparr>
      else client)"

text \<open>
  \<open>broadcastSnapshot\<close>: one snapshot of the registry, then one message for each client.
  \<open>clock p\<close> is the time that the call for the client \<open>p\<close> reads.
\<close>

definition broadcastSnapshot :: "Registry \<Rightarrow> (nat \<Rightarrow> 64 word) \<Rightarrow> Hub \<Rightarrow> panic + Hub" where
  "broadcastSnapshot r clock h =
     (case Registry_LatestSnapshot r of
        Inl p \<Rightarrow> Inl p
      | Inr snapshot \<Rightarrow>
          Inr (h\<lparr>clients :=
                 map (\<lambda>(p, client).
                        (p, try_send client (buildClientMessage client snapshot (clock p))))
                     (clients h)\<rparr>))"

text \<open>
  \<open>StartBroadcastLoop\<close>: one \<open>broadcastSnapshot\<close> for each tick, each with the registry
  and the clock of its moment.
\<close>

fun StartBroadcastLoop :: "(Registry \<times> (nat \<Rightarrow> 64 word)) list \<Rightarrow> Hub \<Rightarrow> panic + Hub" where
  "StartBroadcastLoop [] h = Inr h"
| "StartBroadcastLoop ((r, clock) # rest) h =
     (case broadcastSnapshot r clock h of
        Inl p \<Rightarrow> Inl p
      | Inr h' \<Rightarrow> StartBroadcastLoop rest h')"

section \<open>package ingest: the stream handler\<close>





section \<open>package auth\<close>

text \<open>
  \<open>Authenticator\<close> is \<open>struct { apiKeys map[string]bool; enabled bool }\<close>. The context
  of a request carries its metadata or none; \<open>md.Get\<close> returns the values stored under a
  key, none when the key is absent. A handler is a function of the state it may change;
  an interceptor that does not call it leaves the state as it is.
\<close>

record Authenticator =
  apiKeys :: "(string \<times> bool) list"
  enabled :: bool

datatype codes = Unauthenticated | PermissionDenied

datatype status = Status codes string

definition ValidateAPIKey :: "Authenticator \<Rightarrow> string \<Rightarrow> bool" where
  "ValidateAPIKey a key =
     (if \<not> enabled a then True
      else case map_of (apiKeys a) key of Some b \<Rightarrow> b | None \<Rightarrow> False)"

definition MD_Get :: "(string \<times> string list) list \<Rightarrow> string \<Rightarrow> string list" where
  "MD_Get md k = (case map_of md k of Some vs \<Rightarrow> vs | None \<Rightarrow> [])"

definition authenticate :: "Authenticator \<Rightarrow> (string \<times> string list) list option \<Rightarrow> status option" where
  "authenticate a ctx =
     (if \<not> enabled a then None
      else case ctx of
        None \<Rightarrow> Some (Status Unauthenticated ''missing metadata'')
      | Some md \<Rightarrow>
          (case MD_Get md ''x-api-key'' of
             [] \<Rightarrow> Some (Status Unauthenticated ''missing API key'')
           | k # ks \<Rightarrow>
               if \<not> ValidateAPIKey a k then Some (Status PermissionDenied ''invalid API key'')
               else None))"

definition UnaryInterceptor ::
  "Authenticator \<Rightarrow> (string \<times> string list) list option \<Rightarrow> 'req \<Rightarrow>
   ((string \<times> string list) list option \<Rightarrow> 'req \<Rightarrow> 's \<Rightarrow> (status + 'resp) \<times> 's) \<Rightarrow>
   's \<Rightarrow> (status + 'resp) \<times> 's" where
  "UnaryInterceptor a ctx req handler s =
     (case authenticate a ctx of
        Some err \<Rightarrow> (Inl err, s)
      | None \<Rightarrow> handler ctx req s)"

definition StreamInterceptor ::
  "Authenticator \<Rightarrow> 'srv \<Rightarrow> (string \<times> string list) list option \<Rightarrow>
   ('srv \<Rightarrow> (string \<times> string list) list option \<Rightarrow> 's \<Rightarrow> status option \<times> 's) \<Rightarrow>
   's \<Rightarrow> status option \<times> 's" where
  "StreamInterceptor a srv ss handler s =
     (case authenticate a ss of
        Some err \<Rightarrow> (Some err, s)
      | None \<Rightarrow> handler srv ss s)"


section \<open>Scenarios\<close>

text \<open>
  An authenticator with one key, and two handlers that count their calls in the state.
\<close>

definition auth_one_key :: Authenticator where
  "auth_one_key = \<lparr>apiKeys = [(''secret'', True)], enabled = True\<rparr>"

definition counting_unary ::
  "(string \<times> string list) list option \<Rightarrow> string \<Rightarrow> nat \<Rightarrow> (status + string) \<times> nat" where
  "counting_unary ctx req n = (Inr req, Suc n)"

definition counting_stream ::
  "unit \<Rightarrow> (string \<times> string list) list option \<Rightarrow> nat \<Rightarrow> status option \<times> nat" where
  "counting_stream srv ss n = (None, Suc n)"


text \<open>The variant scenario: a gauge sample, then a counter sample, for \<open>("s1", "x")\<close>.\<close>

definition ring_of_one :: "Sample \<Rightarrow> Ring" where
  "ring_of_one s = \<lparr>data = (replicate 1000 zero_Sample)[0 := s], idx = 1, rsize = 1000\<rparr>"

definition key_s1_x :: MetricKey where
  "key_s1_x = \<lparr>Service = ''s1'', Name = ''x''\<rparr>"

definition gauge_then_counter :: Metric where
  "gauge_then_counter =
     \<lparr>Metric_Name = ''x'', Labels = [],
      Samples = [Some \<lparr>TimestampNs = 1, Value = Some (MetricSample_Gauge 3)\<rparr>,
                 Some \<lparr>TimestampNs = 2, Value = Some (MetricSample_Counter 7)\<rparr>]\<rparr>"

definition registry_after_conflict :: Registry where
  "registry_after_conflict =
     \<lparr>gauges = [(key_s1_x, 0)], counters = [(key_s1_x, 1)], histograms = [],
      rings = [ring_of_one \<lparr>Ts = 1, Val = 3\<rparr>, ring_of_one \<lparr>Ts = 2, Val = 7\<rparr>], hrings = []\<rparr>"


text \<open>The registry after the gauge sample alone, and the sample that follows.\<close>

definition registry_one_gauge :: Registry where
  "registry_one_gauge =
     \<lparr>gauges = [(key_s1_x, 0)], counters = [], histograms = [],
      rings = [ring_of_one \<lparr>Ts = 1, Val = 3\<rparr>], hrings = []\<rparr>"

text \<open>A histogram sample with two bounds and one count, and the registry that holds it.\<close>

definition short_histogram :: Metric where
  "short_histogram =
     \<lparr>Metric_Name = ''h'', Labels = [],
      Samples = [Some \<lparr>TimestampNs = 5,
                       Value = Some (MetricSample_Histogram
                                 (Some \<lparr>Histogram_Bounds = [1, 2], Histogram_Counts = [9]\<rparr>))\<rparr>]\<rparr>"

definition registry_short_histogram :: Registry where
  "registry_short_histogram =
     \<lparr>gauges = [], counters = [], histograms = [(\<lparr>Service = ''s1'', Name = ''h''\<rparr>, 0)],
      rings = [],
      hrings = [\<lparr>hdata = (replicate 500 zero_HistogramData)
                         [0 := \<lparr>HistogramData_Ts = 5, Bounds = [1, 2], Counts = [9]\<rparr>],
                 hidx = 1, hsize = 500\<rparr>]\<rparr>"





text \<open>
  The overload scenario: one client with a mailbox of capacity 2 and no subscription,
  five ticks on the empty registry with the clock readings 1 to 5, and the hub once the
  mailbox holds the messages of the first two ticks.
\<close>

definition tick_message :: "64 word \<Rightarrow> SnapshotMessage" where
  "tick_message t =
     \<lparr>msg_type = ''snapshot'', timestamp = t, msg_gauges = Map.empty,
      msg_counters = Map.empty, msg_histograms = Map.empty\<rparr>"

definition hub_cap2 :: Hub where
  "hub_cap2 = \<lparr>clients = [(1, \<lparr>send = [], send_cap = 2, subs = []\<rparr>)], updates = []\<rparr>"

definition client_cap2_full :: Client where
  "client_cap2_full = \<lparr>send = [tick_message 1, tick_message 2], send_cap = 2, subs = []\<rparr>"

definition hub_cap2_full :: Hub where
  "hub_cap2_full = \<lparr>clients = [(1, client_cap2_full)], updates = []\<rparr>"

definition first_two_ticks :: "(Registry \<times> (nat \<Rightarrow> 64 word)) list" where
  "first_two_ticks = [(NewRegistry, \<lambda>p. 1), (NewRegistry, \<lambda>p. 2)]"

definition last_three_ticks :: "(Registry \<times> (nat \<Rightarrow> 64 word)) list" where
  "last_three_ticks = [(NewRegistry, \<lambda>p. 3), (NewRegistry, \<lambda>p. 4), (NewRegistry, \<lambda>p. 5)]"

definition five_ticks :: "(Registry \<times> (nat \<Rightarrow> 64 word)) list" where
  "five_ticks = first_two_ticks @ last_three_ticks"

section \<open>Properties of the ring buffer\<close>

subsection \<open>Signed and unsigned readings of a 64-bit word\<close>

lemma sint_uint_bit: "sint (w :: 64 word) = uint w - 2 ^ 64 * of_bool (bit (uint w) 63)"
proof -
  have "sint w = signed_take_bit 63 (uint w)" by (simp add: sint_uint)
  also have "\<dots> = take_bit 64 (uint w) - 2 ^ 64 * of_bool (bit (uint w) 63)"
    using signed_take_bit_eq_take_bit_minus [of 63 "uint w"] by simp
  also have "take_bit 64 (uint w) = uint w"
    using uint_bounded [of w] by (simp add: take_bit_int_eq_self)
  finally show ?thesis .
qed

lemma sint_nonneg_uint: "0 \<le> sint (w :: 64 word) \<Longrightarrow> sint w = uint w"
  using uint_bounded [of w] by (cases "bit (uint w) 63") (simp_all add: sint_uint_bit)

lemma sint_neg_uint: "sint (w :: 64 word) < 0 \<Longrightarrow> uint w = 2 ^ 64 + sint w"
  using uint_ge_0 [of w] by (cases "bit (uint w) 63") (simp_all add: sint_uint_bit)

lemma uint_small_sint: "uint (w :: 64 word) < 2 ^ 63 \<Longrightarrow> sint w = uint w"
  using uint_ge_0 [of w] sint_ge [of w]
  by (cases "bit (uint w) 63") (simp_all add: sint_uint_bit)

lemma sint_nonneg_unat:
  assumes "0 \<le> sint (C :: 64 word)"
  shows "sint C = int (unat C)" and "int (unat C) < 2 ^ 63"
proof -
  from assms have "sint C = uint C" by (rule sint_nonneg_uint)
  then show "sint C = int (unat C)" by (simp only: uint_nat)
  then show "int (unat C) < 2 ^ 63" using sint_lt [of C] by simp
qed

lemma unat_of_nat64: "n < 2 ^ 64 \<Longrightarrow> unat (of_nat n :: 64 word) = n"
  by (simp add: unat_of_nat)

subsection \<open>The invariant is established and kept\<close>

lemma slot_inv:
  assumes "ring_inv r"
  shows "slot r i = Inr (unat i mod unat (rsize r))"
proof -
  from assms have nz: "rsize r \<noteq> 0" and len: "length (data r) = unat (rsize r)"
    by (simp_all add: ring_inv_def)
  from nz have "0 < unat (rsize r)" by (simp add: unat_gt_0)
  then have "unat i mod unat (rsize r) < length (data r)" using len by simp
  then show ?thesis using nz by (simp add: slot_def unat_mod)
qed

lemma mod_neq_window:
  fixes j n c :: nat
  assumes "j < n" "n < j + c"
  shows "j mod c \<noteq> n mod c"
proof
  assume "j mod c = n mod c"
  then have "c dvd n - j" using assms(1)
    by (metis mod_eq_dvd_iff_nat less_imp_le_nat)
  moreover have "0 < n - j" "n - j < c" using assms by arith+
  ultimately show False by (meson dvd_imp_le leD)
qed

lemma NewRing_holds:
  assumes "0 <s C"
  shows "\<exists>r0. NewRing C = Inr r0 \<and> ring_holds r0 [] \<and> rsize r0 = C"
proof -
  from assms have "\<not> C <s 0" "C \<noteq> 0" by (auto simp: word_sless_alt)
  then show ?thesis by (simp add: NewRing_def ring_holds_def ring_inv_def)
qed

lemma Push_holds:
  assumes h: "ring_holds r hs" and n: "Suc (length hs) < 2 ^ 64"
  shows "\<exists>r'. Push r s = Inr r' \<and> ring_holds r' (hs @ [s]) \<and> rsize r' = rsize r"
proof -
  let ?c = "unat (rsize r)" and ?n = "length hs"
  from h have inv: "ring_inv r" and ix: "idx r = of_nat ?n"
    and win: "\<And>j. j < ?n \<Longrightarrow> ?n \<le> j + ?c \<Longrightarrow> data r ! (j mod ?c) = hs ! j"
    by (simp_all add: ring_holds_def)
  from inv have len: "length (data r) = ?c" and cpos: "0 < ?c"
    by (simp_all add: ring_inv_def unat_gt_0)
  from n have un: "unat (of_nat ?n :: 64 word) = ?n" by (simp add: unat_of_nat64)
  define r' where "r' = r\<lparr>data := (data r)[?n mod ?c := s], idx := idx r + 1\<rparr>"
  have push: "Push r s = Inr r'"
    by (simp add: Push_def slot_inv [OF inv] ix un r'_def)
  have inv': "ring_inv r'" using inv by (simp add: ring_inv_def r'_def)
  have ix': "idx r' = of_nat (length (hs @ [s]))" by (simp add: r'_def ix)
  have win': "data r' ! (j mod unat (rsize r')) = (hs @ [s]) ! j"
    if "j < length (hs @ [s])" "length (hs @ [s]) \<le> j + unat (rsize r')" for j
  proof (cases "j = ?n")
    case True
    then show ?thesis using cpos len by (simp add: r'_def)
  next
    case False
    with that have jn: "j < ?n" and w: "?n < j + ?c" by (simp_all add: r'_def)
    then have "j mod ?c \<noteq> ?n mod ?c" by (rule mod_neq_window)
    then have "data r' ! (j mod ?c) = data r ! (j mod ?c)" by (simp add: r'_def)
    also have "\<dots> = hs ! j" using jn w by (intro win) simp_all
    finally show ?thesis using jn by (simp add: r'_def nth_append)
  qed
  have "ring_holds r' (hs @ [s])"
    unfolding ring_holds_def using inv' ix' n win' by simp
  moreover have "rsize r' = rsize r" by (simp add: r'_def)
  ultimately show ?thesis using push by blast
qed

lemma push_all_holds:
  "ring_holds r hs \<Longrightarrow> length hs + length ss < 2 ^ 64 \<Longrightarrow>
   \<exists>r'. push_all r ss = Inr r' \<and> ring_holds r' (hs @ ss) \<and> rsize r' = rsize r"
proof (induction ss arbitrary: r hs)
  case Nil
  then show ?case by simp
next
  case (Cons s ss)
  from Cons.prems have "Suc (length hs) < 2 ^ 64" by simp
  with Cons.prems(1) obtain r1 where p: "Push r s = Inr r1"
    and h1: "ring_holds r1 (hs @ [s])" and sz: "rsize r1 = rsize r"
    using Push_holds by blast
  from Cons.prems have "length (hs @ [s]) + length ss < 2 ^ 64" by simp
  from Cons.IH [OF h1 this] obtain r' where "push_all r1 ss = Inr r'"
    "ring_holds r' ((hs @ [s]) @ ss)" "rsize r' = rsize r1" by blast
  then show ?case using p sz by simp
qed

lemma fresh_pushes:
  assumes "0 <s C" "length ss < 2 ^ 64"
  shows "\<exists>r0 r. NewRing C = Inr r0 \<and> push_all r0 ss = Inr r \<and> ring_holds r ss \<and> rsize r = C"
proof -
  from NewRing_holds [OF assms(1)] obtain r0 where
    a: "NewRing C = Inr r0" "ring_holds r0 []" "rsize r0 = C" by blast
  from push_all_holds [OF a(2), of ss] assms(2) obtain r where
    "push_all r0 ss = Inr r" "ring_holds r ([] @ ss)" "rsize r = rsize r0" by auto
  with a show ?thesis by simp
qed

subsection \<open>What the readers see\<close>

lemma SnapshotLast_loop_inv:
  "ring_inv r \<Longrightarrow>
   SnapshotLast_loop r i c res =
     Inr (res @ map (\<lambda>j. data r ! (j mod unat (rsize r))) [unat i..<unat c])"
proof (induction r i c res rule: SnapshotLast_loop.induct)
  case (1 r i c res)
  show ?case
  proof (cases "i < c")
    case True
    then have su: "unat (i + 1) = Suc (unat i)" by unat_arith
    from True have lt: "unat i < unat c" by (simp add: word_less_nat_alt)
    have sl: "slot r i = Inr (unat i mod unat (rsize r))"
      using "1.prems" by (rule slot_inv)
    have "SnapshotLast_loop r i c res =
        SnapshotLast_loop r (i + 1) c (res @ [data r ! (unat i mod unat (rsize r))])"
      using True sl by (subst SnapshotLast_loop.simps) simp
    also have "\<dots> = Inr ((res @ [data r ! (unat i mod unat (rsize r))]) @
        map (\<lambda>j. data r ! (j mod unat (rsize r))) [unat (i + 1)..<unat c])"
      using "1.IH" [OF True sl] "1.prems" by simp
    finally show ?thesis using lt su by (simp add: upt_conv_Cons)
  next
    case False
    then have "unat c \<le> unat i" by (simp add: word_less_nat_alt)
    then show ?thesis using False by (subst SnapshotLast_loop.simps) simp
  qed
qed

lemma window_drop:
  assumes "m \<le> length hs"
    and "\<And>j. j < length hs \<Longrightarrow> m \<le> j \<Longrightarrow> f j = hs ! j"
  shows "map f [m..<length hs] = drop m hs"
proof (rule nth_equalityI)
  show "length (map f [m..<length hs]) = length (drop m hs)" by simp
next
  fix i assume "i < length (map f [m..<length hs])"
  then have "i < length hs - m" by simp
  then show "map f [m..<length hs] ! i = drop m hs ! i"
    using assms by simp
qed

lemma SnapshotLast_holds:
  assumes h: "ring_holds r hs"
  shows "SnapshotLast r n =
     Inr (drop (length hs - min (unat n) (min (unat (rsize r)) (length hs))) hs)"
proof -
  let ?c = "unat (rsize r)" and ?N = "length hs"
  from h have inv: "ring_inv r" and ix: "idx r = of_nat ?N" and nb: "?N < 2 ^ 64"
    and win: "\<And>j. j < ?N \<Longrightarrow> ?N \<le> j + ?c \<Longrightarrow> data r ! (j mod ?c) = hs ! j"
    by (simp_all add: ring_holds_def)
  have ui: "unat (idx r) = ?N" using ix nb by (simp add: unat_of_nat64)
  define c1 where "c1 = (if n > rsize r then rsize r else n)"
  define c2 where "c2 = (if c1 > idx r then idx r else c1)"
  have u1: "unat c1 = min (unat n) ?c"
    by (auto simp: c1_def word_less_nat_alt)
  have u2: "unat c2 = min (unat c1) ?N"
    using ui by (auto simp: c2_def word_less_nat_alt)
  have le: "c2 \<le> idx r" using u2 ui by (simp add: word_le_nat_alt)
  let ?k = "min (unat n) (min ?c ?N)"
  have uk: "unat c2 = ?k" using u1 u2 by simp
  have us: "unat (idx r - c2) = ?N - ?k"
    using le uk ui by (simp add: unat_sub)
  have "SnapshotLast r n = SnapshotLast_loop r (idx r - c2) (idx r) []"
    by (simp add: SnapshotLast_def Let_def c1_def c2_def)
  also have "\<dots> = Inr (map (\<lambda>j. data r ! (j mod ?c)) [?N - ?k..<?N])"
    using SnapshotLast_loop_inv [OF inv, of "idx r - c2" "idx r" "[]"] us ui by simp
  also have "map (\<lambda>j. data r ! (j mod ?c)) [?N - ?k..<?N] = drop (?N - ?k) hs"
  proof (rule window_drop)
    show "?N - ?k \<le> ?N" by simp
  next
    fix j assume "j < ?N" "?N - ?k \<le> j"
    then show "data r ! (j mod ?c) = hs ! j" by (intro win) auto
  qed
  finally show ?thesis .
qed

lemma Count_holds: "ring_holds r hs \<Longrightarrow> unat (Count r) = length hs"
  by (simp add: ring_holds_def Count_def unat_of_nat64)

lemma Len_holds:
  assumes "ring_holds r hs"
  shows "unat (Len r) = min (length hs) (unat (rsize r))"
proof -
  from assms have "unat (idx r) = length hs"
    by (simp add: ring_holds_def unat_of_nat64)
  then show ?thesis by (auto simp: Len_def Let_def word_less_nat_alt)
qed

lemma Len_holds_sint:
  assumes h: "ring_holds r hs" and c: "0 \<le> sint (rsize r)"
  shows "sint (Len r) = int (min (length hs) (unat (rsize r)))"
proof -
  have "unat (Len r) \<le> unat (rsize r)" using Len_holds [OF h] by simp
  then have "int (unat (Len r)) \<le> int (unat (rsize r))" by (simp only: of_nat_le_iff)
  also have "\<dots> < 2 ^ 63" using c by (rule sint_nonneg_unat(2))
  finally have "uint (Len r) < 2 ^ 63" by (simp only: uint_nat)
  then have "sint (Len r) = uint (Len r)" by (rule uint_small_sint)
  then show ?thesis using Len_holds [OF h] by (simp only: uint_nat)
qed

lemma Latest_holds:
  assumes h: "ring_holds r hs"
  shows "Latest r = Inr (if hs = [] then (zero_Sample, False) else (last hs, True))"
proof (cases "hs = []")
  case True
  with h show ?thesis by (simp add: Latest_def ring_holds_def)
next
  case False
  let ?c = "unat (rsize r)" and ?N = "length hs"
  from h have inv: "ring_inv r" and ix: "idx r = of_nat ?N" and nb: "?N < 2 ^ 64"
    and win: "\<And>j. j < ?N \<Longrightarrow> ?N \<le> j + ?c \<Longrightarrow> data r ! (j mod ?c) = hs ! j"
    by (simp_all add: ring_holds_def)
  from inv have cpos: "0 < ?c" by (simp add: ring_inv_def unat_gt_0)
  have ui: "unat (idx r) = ?N" using ix nb by (simp add: unat_of_nat64)
  from False have Npos: "0 < ?N" by simp
  then have nz: "idx r \<noteq> 0" using ui by (metis less_not_refl unat_0)
  have "unat (idx r - 1) = ?N - 1"
    using nz ui by (simp add: unat_minus_one)
  then have "slot r (idx r - 1) = Inr ((?N - 1) mod ?c)"
    using slot_inv [OF inv, of "idx r - 1"] by simp
  moreover have "data r ! ((?N - 1) mod ?c) = hs ! (?N - 1)"
    using Npos cpos by (intro win) auto
  ultimately show ?thesis using nz False by (simp add: Latest_def last_conv_nth)
qed

text \<open>
  Claim C3, as stated, fails at capacity 0: \<open>NewRing(0)\<close> returns a ring, and the
  first \<open>Push\<close> into it panics on \<open>i%r.size\<close>, a division by zero.
\<close>

theorem Ring_capacity_zero_counterexample:
  "NewRing 0 = Inr fresh0 \<and> push_all fresh0 [\<lparr>Ts = 1, Val = 1\<rparr>] = Inl DivideByZero"
  by (simp add: NewRing_def fresh0_def Push_def slot_def)

text \<open>
  Claim C3, amended. A fresh ring of capacity \<open>C \<ge> 1\<close> accepts any \<open>N < 2 ^ 64\<close> consecutive
  pushes; afterwards \<open>Len()\<close> is \<open>min N C\<close>, \<open>Count()\<close> is \<open>N\<close>, and \<open>Latest()\<close> is the
  last pushed sample with \<open>true\<close> when \<open>N > 0\<close>, the zero sample with \<open>false\<close> when
  \<open>N = 0\<close>.
\<close>

theorem Ring_push_observers:
  assumes "0 <s C" and "length ss < 2 ^ 64"
  shows "\<exists>r0 r. NewRing C = Inr r0 \<and> push_all r0 ss = Inr r \<and>
           sint (Len r) = int (min (length ss) (unat C)) \<and>
           unat (Count r) = length ss \<and>
           Latest r = Inr (if ss = [] then (zero_Sample, False) else (last ss, True))"
proof -
  from fresh_pushes [OF assms] obtain r0 r where
    a: "NewRing C = Inr r0" "push_all r0 ss = Inr r" and h: "ring_holds r ss" and sz: "rsize r = C"
    by blast
  from assms(1) have "0 \<le> sint (rsize r)" by (simp add: sz word_sless_alt)
  from Len_holds_sint [OF h this] have "sint (Len r) = int (min (length ss) (unat C))"
    by (simp add: sz)
  with a Count_holds [OF h] Latest_holds [OF h] show ?thesis by blast
qed

theorem Ring_push_observers_witness:
  "0 <s (4 :: 64 word) \<and> length six_samples < (2 :: nat) ^ 64 \<and>
   (\<exists>r0 r. NewRing 4 = Inr r0 \<and> push_all r0 six_samples = Inr r \<and>
      sint (Len r) = 4 \<and> unat (Count r) = 6 \<and> Latest r = Inr (\<lparr>Ts = 6, Val = 6\<rparr>, True))"
proof -
  have c: "0 <s (4 :: 64 word)" by (simp add: word_sless_alt)
  have l: "length six_samples < 2 ^ 64" by (simp add: six_samples_def)
  from Ring_push_observers [OF c l] obtain r0 r where
    a: "NewRing 4 = Inr r0" "push_all r0 six_samples = Inr r"
    and b: "sint (Len r) = int (min (length six_samples) (unat (4 :: 64 word)))"
      "unat (Count r) = length six_samples"
      "Latest r = Inr (if six_samples = [] then (zero_Sample, False) else (last six_samples, True))"
    by blast
  from b have "sint (Len r) = 4" "unat (Count r) = 6" "Latest r = Inr (\<lparr>Ts = 6, Val = 6\<rparr>, True)"
    by (simp_all add: six_samples_def)
  with a c l show ?thesis by blast
qed

text \<open>
  Claim C4. After any \<open>N < 2 ^ 64\<close> pushes of the samples \<open>ss\<close> into a fresh ring of
  capacity \<open>C \<ge> 1\<close>, \<open>SnapshotLast(k)\<close> with \<open>k \<ge> 0\<close> returns exactly the last
  \<open>min k (min C N)\<close> samples of \<open>ss\<close>, oldest first; \<open>Count()\<close> is \<open>N\<close> and \<open>Len()\<close> is
  \<open>min N C\<close>. The witness is the scenario with capacity 4 and six pushes.
\<close>

theorem SnapshotLast_window:
  assumes "0 <s C" and "length ss < 2 ^ 64" and "0 \<le>s k"
  shows "\<exists>r0 r. NewRing C = Inr r0 \<and> push_all r0 ss = Inr r \<and>
           SnapshotLast r k =
             Inr (drop (length ss - min (nat (sint k)) (min (unat C) (length ss))) ss) \<and>
           unat (Count r) = length ss \<and>
           sint (Len r) = int (min (length ss) (unat C))"
proof -
  from fresh_pushes [OF assms(1,2)] obtain r0 r where
    a: "NewRing C = Inr r0" "push_all r0 ss = Inr r" and h: "ring_holds r ss" and sz: "rsize r = C"
    by blast
  from assms(3) have "0 \<le> sint k" by (simp add: word_sle_eq)
  then have "sint k = int (unat k)" by (rule sint_nonneg_unat(1))
  then have k: "nat (sint k) = unat k" by simp
  from assms(1) have "0 \<le> sint (rsize r)" by (simp add: sz word_sless_alt)
  from Len_holds_sint [OF h this] have "sint (Len r) = int (min (length ss) (unat C))"
    by (simp add: sz)
  with a SnapshotLast_holds [OF h, of k] Count_holds [OF h] k sz show ?thesis by auto
qed

theorem SnapshotLast_window_witness:
  "0 <s (4 :: 64 word) \<and> length six_samples < (2 :: nat) ^ 64 \<and> 0 \<le>s (10 :: 64 word) \<and>
   (\<exists>r0 r. NewRing 4 = Inr r0 \<and> push_all r0 six_samples = Inr r \<and>
      SnapshotLast r 10 =
        Inr [\<lparr>Ts = 3, Val = 3\<rparr>, \<lparr>Ts = 4, Val = 4\<rparr>, \<lparr>Ts = 5, Val = 5\<rparr>, \<lparr>Ts = 6, Val = 6\<rparr>] \<and>
      unat (Count r) = 6 \<and> sint (Len r) = 4)"
proof -
  have c: "0 <s (4 :: 64 word)" by (simp add: word_sless_alt)
  have l: "length six_samples < 2 ^ 64" by (simp add: six_samples_def)
  have k: "0 \<le>s (10 :: 64 word)" by (simp add: word_sle_eq)
  from SnapshotLast_window [OF c l k] obtain r0 r where
    a: "NewRing 4 = Inr r0" "push_all r0 six_samples = Inr r"
    and b: "SnapshotLast r 10 =
        Inr (drop (length six_samples -
                   min (nat (sint (10 :: 64 word))) (min (unat (4 :: 64 word)) (length six_samples)))
               six_samples)"
      "unat (Count r) = length six_samples"
      "sint (Len r) = int (min (length six_samples) (unat (4 :: 64 word)))"
    by blast
  from b have "SnapshotLast r 10 =
        Inr [\<lparr>Ts = 3, Val = 3\<rparr>, \<lparr>Ts = 4, Val = 4\<rparr>, \<lparr>Ts = 5, Val = 5\<rparr>, \<lparr>Ts = 6, Val = 6\<rparr>]"
    "unat (Count r) = 6" "sint (Len r) = 4"
    by (simp_all add: six_samples_def)
  with a c l k show ?thesis by blast
qed

text \<open>
  Claim C10, as stated, fails on a ring that has received nothing: \<open>SnapshotLast(-1)\<close>
  on the fresh ring of capacity 4 returns the empty slice.
\<close>

theorem SnapshotLast_negative_counterexample:
  "NewRing 4 = Inr fresh4 \<and> (- 1 :: 64 word) <s 0 \<and> SnapshotLast fresh4 (- 1) = Inr []"
  by (simp add: NewRing_def fresh4_def word_sless_alt SnapshotLast_def SnapshotLast_loop.simps)

text \<open>
  Claim C10, amended. For a negative \<open>n\<close> the conversion \<open>uint64(n)\<close> is
  \<open>2 ^ 64 + n\<close>, at least the capacity; \<open>SnapshotLast(n)\<close> does not panic and returns
  what \<open>SnapshotLast(C)\<close> returns, the whole valid window: the last \<open>min N C\<close> pushed
  samples, which is empty only when nothing has been pushed.
\<close>

theorem SnapshotLast_negative:
  assumes "0 <s C" and "length ss < 2 ^ 64" and "n <s 0"
  shows "\<exists>r0 r. NewRing C = Inr r0 \<and> push_all r0 ss = Inr r \<and>
           uint n = 2 ^ 64 + sint n \<and> C \<le> n \<and>
           SnapshotLast r n = SnapshotLast r C \<and>
           SnapshotLast r n = Inr (drop (length ss - unat C) ss) \<and>
           length (drop (length ss - unat C) ss) = min (length ss) (unat C)"
proof -
  from fresh_pushes [OF assms(1,2)] obtain r0 r where
    a: "NewRing C = Inr r0" "push_all r0 ss = Inr r" and h: "ring_holds r ss" and sz: "rsize r = C"
    by blast
  from assms(3) have neg: "sint n < 0" by (simp add: word_sless_alt)
  then have wrap: "uint n = 2 ^ 64 + sint n" by (rule sint_neg_uint)
  from assms(1) have "0 \<le> sint C" by (simp add: word_sless_alt)
  then have "int (unat C) < 2 ^ 63" by (rule sint_nonneg_unat(2))
  also have "(2 :: int) ^ 63 \<le> uint n" using wrap sint_ge [of n] by simp
  finally have "int (unat C) \<le> int (unat n)" by (simp only: uint_nat)
  then have le: "unat C \<le> unat n" by (simp only: of_nat_le_iff)
  then have Cn: "C \<le> n" by (simp add: word_le_nat_alt)
  have "min (unat n) (min (unat C) (length ss)) = min (unat C) (min (unat C) (length ss))"
    using le by simp
  then have same: "SnapshotLast r n = SnapshotLast r C"
    using SnapshotLast_holds [OF h, of n] SnapshotLast_holds [OF h, of C] sz by simp
  have "length ss - min (unat C) (min (unat C) (length ss)) = length ss - unat C" by simp
  then have win: "SnapshotLast r C = Inr (drop (length ss - unat C) ss)"
    using SnapshotLast_holds [OF h, of C] sz by simp
  have "length (drop (length ss - unat C) ss) = min (length ss) (unat C)" by auto
  with a wrap Cn same win show ?thesis by auto
qed

theorem SnapshotLast_negative_witness:
  "0 <s (4 :: 64 word) \<and> length six_samples < (2 :: nat) ^ 64 \<and> (- 1 :: 64 word) <s 0 \<and>
   (\<exists>r0 r. NewRing 4 = Inr r0 \<and> push_all r0 six_samples = Inr r \<and>
      uint (- 1 :: 64 word) = 2 ^ 64 - 1 \<and>
      SnapshotLast r (- 1) = SnapshotLast r 4 \<and>
      SnapshotLast r (- 1) =
        Inr [\<lparr>Ts = 3, Val = 3\<rparr>, \<lparr>Ts = 4, Val = 4\<rparr>, \<lparr>Ts = 5, Val = 5\<rparr>, \<lparr>Ts = 6, Val = 6\<rparr>])"
proof -
  have c: "0 <s (4 :: 64 word)" by (simp add: word_sless_alt)
  have l: "length six_samples < 2 ^ 64" by (simp add: six_samples_def)
  have n: "(- 1 :: 64 word) <s 0" by (simp add: word_sless_alt)
  from SnapshotLast_negative [OF c l n] obtain r0 r where
    a: "NewRing 4 = Inr r0" "push_all r0 six_samples = Inr r"
      "SnapshotLast r (- 1) = SnapshotLast r 4"
    and b: "uint (- 1 :: 64 word) = 2 ^ 64 + sint (- 1 :: 64 word)"
      "SnapshotLast r (- 1) = Inr (drop (length six_samples - unat (4 :: 64 word)) six_samples)"
    by blast
  from b have "uint (- 1 :: 64 word) = 2 ^ 64 - 1"
    "SnapshotLast r (- 1) =
        Inr [\<lparr>Ts = 3, Val = 3\<rparr>, \<lparr>Ts = 4, Val = 4\<rparr>, \<lparr>Ts = 5, Val = 5\<rparr>, \<lparr>Ts = 6, Val = 6\<rparr>]"
    by (simp_all add: six_samples_def)
  with a c l n show ?thesis by blast
qed

section \<open>Properties of the authenticator\<close>

text \<open>
  Claim C9. With authentication enabled, a request whose metadata has no
  \<open>x-api-key\<close> entry is rejected with \<open>Unauthenticated\<close>, and one whose first
  \<open>x-api-key\<close> value is not a configured key with \<open>PermissionDenied\<close>; both
  interceptors return the error without calling the handler, so the state the
  handler works on is unchanged.
\<close>

theorem authenticate_rejects:
  assumes "enabled a"
  shows "(map_of md ''x-api-key'' = None \<longrightarrow>
            authenticate a (Some md) = Some (Status Unauthenticated ''missing API key'') \<and>
            UnaryInterceptor a (Some md) req uhandler s =
              (Inl (Status Unauthenticated ''missing API key''), s) \<and>
            StreamInterceptor a srv (Some md) shandler s =
              (Some (Status Unauthenticated ''missing API key''), s)) \<and>
         (map_of md ''x-api-key'' = Some (k # ks) \<and> map_of (apiKeys a) k \<noteq> Some True \<longrightarrow>
            authenticate a (Some md) = Some (Status PermissionDenied ''invalid API key'') \<and>
            UnaryInterceptor a (Some md) req uhandler s =
              (Inl (Status PermissionDenied ''invalid API key''), s) \<and>
            StreamInterceptor a srv (Some md) shandler s =
              (Some (Status PermissionDenied ''invalid API key''), s))"
proof (intro conjI impI)
  assume "map_of md ''x-api-key'' = None"
  then have *: "authenticate a (Some md) = Some (Status Unauthenticated ''missing API key'')"
    using assms by (simp add: authenticate_def MD_Get_def)
  then show "authenticate a (Some md) = Some (Status Unauthenticated ''missing API key'')" .
  from * show "UnaryInterceptor a (Some md) req uhandler s =
      (Inl (Status Unauthenticated ''missing API key''), s)"
    by (simp add: UnaryInterceptor_def)
  from * show "StreamInterceptor a srv (Some md) shandler s =
      (Some (Status Unauthenticated ''missing API key''), s)"
    by (simp add: StreamInterceptor_def)
next
  assume h: "map_of md ''x-api-key'' = Some (k # ks) \<and> map_of (apiKeys a) k \<noteq> Some True"
  then have "\<not> ValidateAPIKey a k"
    using assms by (auto simp: ValidateAPIKey_def split: option.splits)
  with h have *: "authenticate a (Some md) = Some (Status PermissionDenied ''invalid API key'')"
    using assms by (simp add: authenticate_def MD_Get_def)
  then show "authenticate a (Some md) = Some (Status PermissionDenied ''invalid API key'')" .
  from * show "UnaryInterceptor a (Some md) req uhandler s =
      (Inl (Status PermissionDenied ''invalid API key''), s)"
    by (simp add: UnaryInterceptor_def)
  from * show "StreamInterceptor a srv (Some md) shandler s =
      (Some (Status PermissionDenied ''invalid API key''), s)"
    by (simp add: StreamInterceptor_def)
qed

theorem authenticate_rejects_witness:
  "enabled auth_one_key \<and>
   map_of [(''user-agent'', [''agent''])] ''x-api-key'' = None \<and>
   UnaryInterceptor auth_one_key (Some [(''user-agent'', [''agent''])]) ''req'' counting_unary 0 =
     (Inl (Status Unauthenticated ''missing API key''), 0) \<and>
   StreamInterceptor auth_one_key () (Some [(''user-agent'', [''agent''])]) counting_stream 0 =
     (Some (Status Unauthenticated ''missing API key''), 0) \<and>
   map_of [(''x-api-key'', [''wrong'', ''secret''])] ''x-api-key'' = Some [''wrong'', ''secret''] \<and>
   map_of (apiKeys auth_one_key) ''wrong'' \<noteq> Some True \<and>
   UnaryInterceptor auth_one_key (Some [(''x-api-key'', [''wrong'', ''secret''])]) ''req'' counting_unary 0 =
     (Inl (Status PermissionDenied ''invalid API key''), 0) \<and>
   StreamInterceptor auth_one_key () (Some [(''x-api-key'', [''wrong'', ''secret''])]) counting_stream 0 =
     (Some (Status PermissionDenied ''invalid API key''), 0)"
proof -
  have e: "enabled auth_one_key" by (simp add: auth_one_key_def)
  have m1: "map_of [(''user-agent'', [''agent''])] ''x-api-key'' = None" by simp
  have m2: "map_of [(''x-api-key'', [''wrong'', ''secret''])] ''x-api-key'' = Some (''wrong'' # [''secret''])
      \<and> map_of (apiKeys auth_one_key) ''wrong'' \<noteq> Some True"
    by (simp add: auth_one_key_def)
  note t1 = authenticate_rejects [OF e, of "[(''user-agent'', [''agent''])]" "''req''" counting_unary 0
      "()" counting_stream, THEN conjunct1, rule_format, OF m1]
  note t2 = authenticate_rejects [OF e, of "[(''x-api-key'', [''wrong'', ''secret''])]" _ _ _ _ _
      "''wrong''" "[''secret'']", THEN conjunct2, rule_format, OF m2, of "''req''" counting_unary 0 "()" counting_stream]
  from e m1 m2 t1 t2 show ?thesis by simp
qed

section \<open>Properties of the registry\<close>

subsection \<open>Go maps and well-formed registries\<close>

lemma map_of_gomap_store: "map_of (gomap_store k v m) = (map_of m)(k \<mapsto> v)"
  by (induction m) auto

lemma gomap_store_fresh: "map_of m k = None \<Longrightarrow> gomap_store k v m = m @ [(k, v)]"
  by (induction m) (auto split: if_splits)

lemma map_of_None_fst: "map_of m k = None \<Longrightarrow> k \<notin> set (map fst m)"
  by (simp add: map_of_eq_None_iff)

lemma map_of_Some_snd: "map_of m k = Some a \<Longrightarrow> a \<in> set (map snd m)"
  by (metis map_of_SomeD set_zip_rightD zip_map_fst_snd)

lemma bounded_notin: "list_all (\<lambda>a. a < n) xs \<Longrightarrow> (n :: nat) \<notin> set xs"
  by (auto simp: list_all_iff)

lemma bounded_mono: "list_all (\<lambda>a. a < n) xs \<Longrightarrow> list_all (\<lambda>a. a < Suc n) xs"
  by (auto simp: list_all_iff)

lemma NewRing_Default:
  "NewRing DefaultRingSize = Inr \<lparr>data = replicate 1000 zero_Sample, idx = 0, rsize = 1000\<rparr>"
  by (simp add: NewRing_def DefaultRingSize_def word_sless_alt)

lemma ring_inv_Default: "ring_inv \<lparr>data = replicate 1000 zero_Sample, idx = 0, rsize = 1000\<rparr>"
  by (simp add: ring_inv_def)

lemma reg_wf_NewRegistry: "reg_wf NewRegistry"
  by (simp add: reg_wf_def NewRegistry_def)

lemma GetRing_locked_new:
  assumes wf: "reg_wf r" and absent: "map_of (gauges r) key = None"
  defines "r' \<equiv> r\<lparr>rings := rings r @ [\<lparr>data = replicate 1000 zero_Sample, idx = 0, rsize = 1000\<rparr>],
                   gauges := gauges r @ [(key, length (rings r))]\<rparr>"
  shows "GetRing_locked r key = Inr (length (rings r), r')" and "reg_wf r'"
proof -
  show "GetRing_locked r key = Inr (length (rings r), r')"
    using absent by (simp add: GetRing_locked_def NewRing_Default gomap_store_fresh r'_def Let_def)
  let ?n = "length (rings r)"
  from wf have b: "list_all (\<lambda>a. a < ?n) (map snd (gauges r) @ map snd (counters r))"
    by (simp add: reg_wf_def)
  then have nin: "?n \<notin> set (map snd (gauges r) @ map snd (counters r))" by (rule bounded_notin)
  from b have b': "list_all (\<lambda>a. a < Suc ?n) (map snd (gauges r) @ map snd (counters r))"
    by (rule bounded_mono)
  from absent have kn: "key \<notin> set (map fst (gauges r))" by (rule map_of_None_fst)
  show "reg_wf r'"
    using wf nin b' kn ring_inv_Default by (simp add: reg_wf_def r'_def)
qed

subsection \<open>Bindings are never removed\<close>

lemma keeps_bindings_refl: "keeps_bindings r r"
  by (simp add: keeps_bindings_def)

lemma keeps_bindings_trans: "keeps_bindings r r1 \<Longrightarrow> keeps_bindings r1 r2 \<Longrightarrow> keeps_bindings r r2"
  by (simp add: keeps_bindings_def)

lemma GetRing_locked_bound:
  assumes "GetRing_locked r key = Inr (a, r')"
  shows "map_of (gauges r') key = Some a" and "keeps_bindings r r'"
  using assms
  by (auto simp: GetRing_locked_def NewRing_Default Let_def map_of_gomap_store keeps_bindings_def
      split: option.splits)

lemma GetRing_bound:
  assumes "GetRing r service name = Inr (a, r')"
  shows "map_of (gauges r') \<lparr>Service = service, Name = name\<rparr> = Some a" and "keeps_bindings r r'"
  using assms GetRing_locked_bound [of r "\<lparr>Service = service, Name = name\<rparr>" a r']
  by (auto simp: GetRing_def Let_def keeps_bindings_refl split: option.splits)

lemma GetRing_present:
  "map_of (gauges r) \<lparr>Service = service, Name = name\<rparr> = Some a \<Longrightarrow> GetRing r service name = Inr (a, r)"
  by (simp add: GetRing_def)

lemma GetCounterRing_locked_bound:
  assumes "GetCounterRing_locked r key = Inr (a, r')"
  shows "map_of (counters r') key = Some a" and "keeps_bindings r r'"
  using assms
  by (auto simp: GetCounterRing_locked_def NewRing_Default Let_def map_of_gomap_store keeps_bindings_def
      split: option.splits)

lemma GetCounterRing_bound:
  assumes "GetCounterRing r service name = Inr (a, r')"
  shows "map_of (counters r') \<lparr>Service = service, Name = name\<rparr> = Some a" and "keeps_bindings r r'"
  using assms GetCounterRing_locked_bound [of r "\<lparr>Service = service, Name = name\<rparr>" a r']
  by (auto simp: GetCounterRing_def Let_def keeps_bindings_refl split: option.splits)

lemma GetCounterRing_present:
  "map_of (counters r) \<lparr>Service = service, Name = name\<rparr> = Some a \<Longrightarrow>
   GetCounterRing r service name = Inr (a, r)"
  by (simp add: GetCounterRing_def)

lemma NewHistogramRing_Default:
  "NewHistogramRing HistogramRingSize =
     Inr \<lparr>hdata = replicate 500 zero_HistogramData, hidx = 0, hsize = 500\<rparr>"
  by (simp add: NewHistogramRing_def HistogramRingSize_def word_sless_alt)

lemma GetHistogramRing_locked_bound:
  assumes "GetHistogramRing_locked r key = Inr (a, r')"
  shows "map_of (histograms r') key = Some a" and "keeps_bindings r r'"
  using assms
  by (auto simp: GetHistogramRing_locked_def NewHistogramRing_Default Let_def map_of_gomap_store
      keeps_bindings_def split: option.splits)

lemma GetHistogramRing_bound:
  assumes "GetHistogramRing r service name = Inr (a, r')"
  shows "map_of (histograms r') \<lparr>Service = service, Name = name\<rparr> = Some a" and "keeps_bindings r r'"
  using assms GetHistogramRing_locked_bound [of r "\<lparr>Service = service, Name = name\<rparr>" a r']
  by (auto simp: GetHistogramRing_def Let_def keeps_bindings_refl split: option.splits)

lemma GetHistogramRing_present:
  "map_of (histograms r) \<lparr>Service = service, Name = name\<rparr> = Some a \<Longrightarrow>
   GetHistogramRing r service name = Inr (a, r)"
  by (simp add: GetHistogramRing_def)

lemma Push_at_keeps: "Push_at r a s = Inr r' \<Longrightarrow> keeps_bindings r r'"
  by (auto simp: Push_at_def keeps_bindings_def split: if_splits sum.splits)

lemma HistogramRing_Push_at_keeps: "HistogramRing_Push_at r a h = Inr r' \<Longrightarrow> keeps_bindings r r'"
  by (auto simp: HistogramRing_Push_at_def keeps_bindings_def split: if_splits sum.splits)

lemma processSample_keeps:
  assumes "processSample r service name sample = Inr r'"
  shows "keeps_bindings r r'"
proof (cases sample)
  case None
  with assms show ?thesis by (simp add: processSample_def)
next
  case (Some smp)
  show ?thesis
  proof (cases "Value smp")
    case None
    with assms Some show ?thesis by (simp add: processSample_def keeps_bindings_refl)
  next
    case (Some v)
    show ?thesis
    proof (cases v)
      case (MetricSample_Gauge g)
      with assms \<open>sample = Some smp\<close> Some obtain a r1 where
        "GetRing r service name = Inr (a, r1)" "Push_at r1 a \<lparr>Ts = TimestampNs smp, Val = g\<rparr> = Inr r'"
        by (auto simp: processSample_def Let_def split: sum.splits)
      then show ?thesis
        using GetRing_bound(2) Push_at_keeps keeps_bindings_trans by blast
    next
      case (MetricSample_Counter c)
      with assms \<open>sample = Some smp\<close> Some obtain a r1 where
        "GetCounterRing r service name = Inr (a, r1)"
        "Push_at r1 a \<lparr>Ts = TimestampNs smp, Val = float64_of_uint64 c\<rparr> = Inr r'"
        by (auto simp: processSample_def Let_def split: sum.splits)
      then show ?thesis
        using GetCounterRing_bound(2) Push_at_keeps keeps_bindings_trans by blast
    next
      case (MetricSample_Histogram ho)
      with assms \<open>sample = Some smp\<close> Some obtain a r1 and h :: Histogram where
        "GetHistogramRing r service name = Inr (a, r1)"
        "HistogramRing_Push_at r1 a \<lparr>HistogramData_Ts = TimestampNs smp, Bounds = Histogram_Bounds h,
                            Counts = Histogram_Counts h\<rparr> = Inr r'"
        by (auto simp: processSample_def Let_def split: sum.splits option.splits)
      then show ?thesis
        using GetHistogramRing_bound(2) HistogramRing_Push_at_keeps keeps_bindings_trans by blast
    qed
  qed
qed

lemma processSamples_keeps:
  "processSamples r service name samples = Inr r' \<Longrightarrow> keeps_bindings r r'"
proof (induction samples arbitrary: r)
  case Nil
  then show ?case by (simp add: keeps_bindings_refl)
next
  case (Cons s samples)
  then obtain r1 where "processSample r service name s = Inr r1"
    "processSamples r1 service name samples = Inr r'"
    by (auto split: sum.splits)
  then show ?case
    using Cons.IH processSample_keeps keeps_bindings_trans by blast
qed

lemma processMetric_keeps:
  "processMetric r service instance metric = Inr r' \<Longrightarrow> keeps_bindings r r'"
  by (auto simp: processMetric_def split: option.splits dest: processSamples_keeps)

lemma processMetrics_keeps:
  "processMetrics r service instance ms = Inr r' \<Longrightarrow> keeps_bindings r r'"
proof (induction ms arbitrary: r)
  case Nil
  then show ?case by (simp add: keeps_bindings_refl)
next
  case (Cons m ms)
  then obtain r1 where "processMetric r service instance m = Inr r1"
    "processMetrics r1 service instance ms = Inr r'"
    by (auto split: sum.splits)
  then show ?case
    using Cons.IH processMetric_keeps keeps_bindings_trans by blast
qed

subsection \<open>Evaluating the scenarios\<close>

lemma bit_length_0: "bit_length 0 = 0"
  by (subst bit_length.simps) simp

lemma bit_length_pos: "0 < n \<Longrightarrow> bit_length n = Suc (bit_length (n div 2))"
  by (subst bit_length.simps) simp

lemma float64_of_uint64_7: "float64_of_uint64 7 = 7"
  by (simp add: float64_of_uint64_def Let_def bit_length_0 bit_length_pos)

lemmas ingest_defs = processMetric_def processSample_def GetRing_def GetRing_locked_def
  GetCounterRing_def GetCounterRing_locked_def GetHistogramRing_def GetHistogramRing_locked_def
  NewRing_def NewHistogramRing_def DefaultRingSize_def HistogramRingSize_def
  Push_at_def HistogramRing_Push_at_def Push_def HistogramRing_Push_def slot_def hslot_def
  NewRegistry_def Let_def word_sless_alt

lemma ingest_conflict:
  "processMetric NewRegistry ''s1'' ''i1'' (Some gauge_then_counter) = Inr registry_after_conflict"
  by (simp add: ingest_defs gauge_then_counter_def registry_after_conflict_def key_s1_x_def
      ring_of_one_def float64_of_uint64_7)

text \<open>
  Claim C7. Each get-or-create operation is idempotent. When a call has returned the
  ring \<open>a\<close> for a key (leaving the registry \<open>r1\<close>), a second call returns the same
  instance \<open>a\<close> and leaves the registry as it is, rings and contents included; so does
  a call made after any further metrics have been processed (\<open>r2\<close>).
\<close>

theorem get_or_create_idempotent:
  assumes "processMetrics r1 svc inst ms = Inr r2"
  shows "(GetRing r service name = Inr (a, r1) \<longrightarrow>
            GetRing r1 service name = Inr (a, r1) \<and> GetRing r2 service name = Inr (a, r2)) \<and>
         (GetCounterRing r service name = Inr (a, r1) \<longrightarrow>
            GetCounterRing r1 service name = Inr (a, r1) \<and>
            GetCounterRing r2 service name = Inr (a, r2)) \<and>
         (GetHistogramRing r service name = Inr (a, r1) \<longrightarrow>
            GetHistogramRing r1 service name = Inr (a, r1) \<and>
            GetHistogramRing r2 service name = Inr (a, r2))"
proof -
  from assms have kb: "keeps_bindings r1 r2" by (rule processMetrics_keeps)
  let ?key = "\<lparr>Service = service, Name = name\<rparr>"
  have g: "GetRing r1 service name = Inr (a, r1) \<and> GetRing r2 service name = Inr (a, r2)"
    if "GetRing r service name = Inr (a, r1)"
  proof -
    from that have b: "map_of (gauges r1) ?key = Some a" by (rule GetRing_bound(1))
    with kb have "map_of (gauges r2) ?key = Some a" by (simp add: keeps_bindings_def)
    with b show ?thesis by (simp add: GetRing_present)
  qed
  have c: "GetCounterRing r1 service name = Inr (a, r1) \<and> GetCounterRing r2 service name = Inr (a, r2)"
    if "GetCounterRing r service name = Inr (a, r1)"
  proof -
    from that have b: "map_of (counters r1) ?key = Some a" by (rule GetCounterRing_bound(1))
    with kb have "map_of (counters r2) ?key = Some a" by (simp add: keeps_bindings_def)
    with b show ?thesis by (simp add: GetCounterRing_present)
  qed
  have h: "GetHistogramRing r1 service name = Inr (a, r1) \<and>
           GetHistogramRing r2 service name = Inr (a, r2)"
    if "GetHistogramRing r service name = Inr (a, r1)"
  proof -
    from that have b: "map_of (histograms r1) ?key = Some a" by (rule GetHistogramRing_bound(1))
    with kb have "map_of (histograms r2) ?key = Some a" by (simp add: keeps_bindings_def)
    with b show ?thesis by (simp add: GetHistogramRing_present)
  qed
  from g c h show ?thesis by blast
qed

theorem get_or_create_idempotent_witness:
  "\<exists>rg rc rh rg2 rc2 rh2.
     processMetrics rg ''s1'' ''i1'' [Some gauge_then_counter] = Inr rg2 \<and>
     GetRing NewRegistry ''s1'' ''x'' = Inr (0, rg) \<and>
     GetRing rg ''s1'' ''x'' = Inr (0, rg) \<and> GetRing rg2 ''s1'' ''x'' = Inr (0, rg2) \<and>
     processMetrics rc ''s1'' ''i1'' [Some gauge_then_counter] = Inr rc2 \<and>
     GetCounterRing NewRegistry ''s1'' ''x'' = Inr (0, rc) \<and>
     GetCounterRing rc ''s1'' ''x'' = Inr (0, rc) \<and> GetCounterRing rc2 ''s1'' ''x'' = Inr (0, rc2) \<and>
     processMetrics rh ''s1'' ''i1'' [Some gauge_then_counter] = Inr rh2 \<and>
     GetHistogramRing NewRegistry ''s1'' ''x'' = Inr (0, rh) \<and>
     GetHistogramRing rh ''s1'' ''x'' = Inr (0, rh) \<and>
     GetHistogramRing rh2 ''s1'' ''x'' = Inr (0, rh2)"
proof -
  obtain rg where g: "GetRing NewRegistry ''s1'' ''x'' = Inr (0, rg)"
    by (simp add: ingest_defs)
  obtain rg2 where g2: "processMetrics rg ''s1'' ''i1'' [Some gauge_then_counter] = Inr rg2"
    using g by (auto simp add: ingest_defs gauge_then_counter_def)
  obtain rc where c: "GetCounterRing NewRegistry ''s1'' ''x'' = Inr (0, rc)"
    by (simp add: ingest_defs)
  obtain rc2 where c2: "processMetrics rc ''s1'' ''i1'' [Some gauge_then_counter] = Inr rc2"
    using c by (auto simp add: ingest_defs gauge_then_counter_def)
  obtain rh where h: "GetHistogramRing NewRegistry ''s1'' ''x'' = Inr (0, rh)"
    by (simp add: ingest_defs)
  obtain rh2 where h2: "processMetrics rh ''s1'' ''i1'' [Some gauge_then_counter] = Inr rh2"
    using h by (auto simp add: ingest_defs gauge_then_counter_def)
  from get_or_create_idempotent [OF g2, of NewRegistry "''s1''" "''x''" 0] g
  have 1: "GetRing rg ''s1'' ''x'' = Inr (0, rg) \<and> GetRing rg2 ''s1'' ''x'' = Inr (0, rg2)" by blast
  from get_or_create_idempotent [OF c2, of NewRegistry "''s1''" "''x''" 0] c
  have 2: "GetCounterRing rc ''s1'' ''x'' = Inr (0, rc) \<and> GetCounterRing rc2 ''s1'' ''x'' = Inr (0, rc2)"
    by blast
  from get_or_create_idempotent [OF h2, of NewRegistry "''s1''" "''x''" 0] h
  have 3: "GetHistogramRing rh ''s1'' ''x'' = Inr (0, rh) \<and>
           GetHistogramRing rh2 ''s1'' ''x'' = Inr (0, rh2)"
    by blast
  from g g2 c c2 h h2 1 2 3 show ?thesis by blast
qed

section \<open>Properties of the stream handler\<close>




section \<open>Properties of the ingest path\<close>

subsection \<open>Pushing through a pointer\<close>

lemma Push_inv: "ring_inv r \<Longrightarrow> Push r s = Inr (pushed r s)"
  by (simp add: Push_def slot_inv pushed_def)

lemma ring_inv_pushed: "ring_inv r \<Longrightarrow> ring_inv (pushed r s)"
  by (simp add: ring_inv_def pushed_def)

lemma Latest_inv:
  assumes "ring_inv r"
  shows "Latest r = Inr (if idx r = 0 then (zero_Sample, False)
                         else (data r ! (unat (idx r - 1) mod unat (rsize r)), True))"
  by (simp add: Latest_def slot_inv [OF assms])

lemma latest_value_pushed:
  assumes inv: "ring_inv r" and nw: "idx r + 1 \<noteq> 0"
  shows "latest_value (pushed r s) = Some s"
proof -
  from inv have "0 < unat (rsize r)" by (simp add: ring_inv_def unat_gt_0)
  then have "unat (idx r) mod unat (rsize r) < length (data r)"
    using inv by (simp add: ring_inv_def)
  then have "Latest (pushed r s) = Inr (s, True)"
    using nw unfolding Latest_inv [OF ring_inv_pushed [OF inv]] by (simp add: pushed_def)
  then show ?thesis by (simp add: latest_value_def)
qed

lemma list_all_update: "list_all P xs \<Longrightarrow> P x \<Longrightarrow> list_all P (xs[i := x])"
  by (metis list_all_iff insert_iff set_update_subset_insert subsetD)

lemma Push_at_wf:
  assumes wf: "reg_wf r" and a: "a < length (rings r)"
  shows "Push_at r a s = Inr (r\<lparr>rings := (rings r)[a := pushed (rings r ! a) s]\<rparr>)"
    and "reg_wf (r\<lparr>rings := (rings r)[a := pushed (rings r ! a) s]\<rparr>)"
proof -
  from wf have all: "list_all ring_inv (rings r)" by (simp add: reg_wf_def)
  with a have inv: "ring_inv (rings r ! a)" by (simp add: list_all_length)
  show "Push_at r a s = Inr (r\<lparr>rings := (rings r)[a := pushed (rings r ! a) s]\<rparr>)"
    using a by (simp add: Push_at_def Push_inv [OF inv])
  have "ring_inv (pushed (rings r ! a) s)" using inv by (rule ring_inv_pushed)
  with all have "list_all ring_inv ((rings r)[a := pushed (rings r ! a) s])"
    by (rule list_all_update)
  then show "reg_wf (r\<lparr>rings := (rings r)[a := pushed (rings r ! a) s]\<rparr>)"
    using wf by (simp add: reg_wf_def)
qed

lemma GetCounterRing_new:
  assumes wf: "reg_wf r" and absent: "map_of (counters r) \<lparr>Service = service, Name = name\<rparr> = None"
  defines "r' \<equiv> r\<lparr>rings := rings r @ [\<lparr>data = replicate 1000 zero_Sample, idx = 0, rsize = 1000\<rparr>],
                   counters := counters r @ [(\<lparr>Service = service, Name = name\<rparr>, length (rings r))]\<rparr>"
  shows "GetCounterRing r service name = Inr (length (rings r), r')" and "reg_wf r'"
proof -
  show "GetCounterRing r service name = Inr (length (rings r), r')"
    using absent
    by (simp add: GetCounterRing_def GetCounterRing_locked_def NewRing_Default gomap_store_fresh
        r'_def Let_def)
  let ?n = "length (rings r)"
  from wf have b: "list_all (\<lambda>a. a < ?n) (map snd (gauges r) @ map snd (counters r))"
    by (simp add: reg_wf_def)
  then have nin: "?n \<notin> set (map snd (gauges r) @ map snd (counters r))" by (rule bounded_notin)
  from b have b': "list_all (\<lambda>a. a < Suc ?n) (map snd (gauges r) @ map snd (counters r))"
    by (rule bounded_mono)
  from absent have kn: "\<lparr>Service = service, Name = name\<rparr> \<notin> set (map fst (counters r))"
    by (rule map_of_None_fst)
  show "reg_wf r'"
    using wf nin b' kn ring_inv_Default by (simp add: reg_wf_def r'_def)
qed

subsection \<open>The latest snapshot of a well-formed registry\<close>

lemma latest_value_inv:
  "ring_inv r \<Longrightarrow> Latest r = Inr (case latest_value r of None \<Rightarrow> (zero_Sample, False) | Some s \<Rightarrow> (s, True))"
  by (simp add: latest_value_def Latest_inv)

lemma latest_scalars_wf:
  "list_all (\<lambda>a. a < length heap) (map snd m) \<Longrightarrow> list_all ring_inv heap \<Longrightarrow>
   distinct (map fst m) \<Longrightarrow>
   \<exists>res. latest_scalars heap m acc = Inr res \<and>
     (\<forall>k. map_of res k =
        (case map_of m k of
           None \<Rightarrow> map_of acc k
         | Some a \<Rightarrow> (case latest_value (heap ! a) of None \<Rightarrow> map_of acc k | Some s \<Rightarrow> Some s)))"
proof (induction m arbitrary: acc)
  case Nil
  then show ?case by simp
next
  case (Cons p m)
  obtain key a where p: "p = (key, a)" by (cases p)
  from Cons.prems p have a: "a < length heap" and rest: "list_all (\<lambda>a. a < length heap) (map snd m)"
    and d: "distinct (map fst m)" and kn: "key \<notin> set (map fst m)"
    by simp_all
  from Cons.prems(2) a have inv: "ring_inv (heap ! a)" by (simp add: list_all_length)
  from kn have none: "map_of m key = None" by (simp add: map_of_eq_None_iff)
  show ?case
  proof (cases "latest_value (heap ! a)")
    case None
    then have step: "latest_scalars heap (p # m) acc = latest_scalars heap m acc"
      using a p by (simp add: latest_value_inv [OF inv])
    from Cons.IH [OF rest Cons.prems(2) d, of acc] obtain res where
      r: "latest_scalars heap m acc = Inr res"
      "\<forall>k. map_of res k = (case map_of m k of None \<Rightarrow> map_of acc k
           | Some a \<Rightarrow> (case latest_value (heap ! a) of None \<Rightarrow> map_of acc k | Some s \<Rightarrow> Some s))"
      by blast
    show ?thesis using step r p None none by auto
  next
    case (Some s)
    then have step: "latest_scalars heap (p # m) acc = latest_scalars heap m (gomap_store key s acc)"
      using a p by (simp add: latest_value_inv [OF inv])
    from Cons.IH [OF rest Cons.prems(2) d, of "gomap_store key s acc"] obtain res where
      r: "latest_scalars heap m (gomap_store key s acc) = Inr res"
      "\<forall>k. map_of res k = (case map_of m k of None \<Rightarrow> map_of (gomap_store key s acc) k
           | Some a \<Rightarrow> (case latest_value (heap ! a) of
                None \<Rightarrow> map_of (gomap_store key s acc) k | Some s \<Rightarrow> Some s))"
      by blast
    show ?thesis using step r p Some none
      by (auto simp: map_of_gomap_store split: option.splits)
  qed
qed

lemma hslot_inv:
  assumes "hring_inv r"
  shows "hslot r i = Inr (unat i mod unat (hsize r))"
proof -
  from assms have nz: "hsize r \<noteq> 0" and len: "length (hdata r) = unat (hsize r)"
    by (simp_all add: hring_inv_def)
  from nz have "0 < unat (hsize r)" by (simp add: unat_gt_0)
  then have "unat i mod unat (hsize r) < length (hdata r)" using len by simp
  then show ?thesis using nz by (simp add: hslot_def unat_mod)
qed

lemma HistogramRing_Push_inv: "hring_inv r \<Longrightarrow> HistogramRing_Push r h = Inr (hpushed r h)"
  by (simp add: HistogramRing_Push_def hslot_inv hpushed_def)

lemma hring_inv_hpushed: "hring_inv r \<Longrightarrow> hring_inv (hpushed r h)"
  by (simp add: hring_inv_def hpushed_def)

lemma HistogramRing_Latest_inv:
  assumes "hring_inv r"
  shows "HistogramRing_Latest r =
     Inr (if hidx r = 0 then (zero_HistogramData, False)
          else (hdata r ! (unat (hidx r - 1) mod unat (hsize r)), True))"
  by (simp add: HistogramRing_Latest_def hslot_inv [OF assms])

lemma HistogramRing_Latest_hpushed:
  assumes inv: "hring_inv r" and nw: "hidx r + 1 \<noteq> 0"
  shows "HistogramRing_Latest (hpushed r h) = Inr (h, True)"
proof -
  from inv have "0 < unat (hsize r)" by (simp add: hring_inv_def unat_gt_0)
  then have "unat (hidx r) mod unat (hsize r) < length (hdata r)"
    using inv by (simp add: hring_inv_def)
  then show ?thesis
    using nw unfolding HistogramRing_Latest_inv [OF hring_inv_hpushed [OF inv]]
    by (simp add: hpushed_def)
qed

lemma hring_inv_Default:
  "hring_inv \<lparr>hdata = replicate 500 zero_HistogramData, hidx = 0, hsize = 500\<rparr>"
  by (simp add: hring_inv_def)

lemma latest_histogram_inv:
  "hring_inv r \<Longrightarrow>
   HistogramRing_Latest r =
     Inr (case latest_histogram r of None \<Rightarrow> (zero_HistogramData, False) | Some h \<Rightarrow> (h, True))"
  by (simp add: latest_histogram_def HistogramRing_Latest_inv)

lemma latest_histograms_wf:
  "list_all (\<lambda>a. a < length heap) (map snd m) \<Longrightarrow> list_all hring_inv heap \<Longrightarrow>
   distinct (map fst m) \<Longrightarrow>
   \<exists>res. latest_histograms heap m acc = Inr res \<and>
     (\<forall>k. map_of res k =
        (case map_of m k of
           None \<Rightarrow> map_of acc k
         | Some a \<Rightarrow> (case latest_histogram (heap ! a) of None \<Rightarrow> map_of acc k | Some s \<Rightarrow> Some s)))"
proof (induction m arbitrary: acc)
  case Nil
  then show ?case by simp
next
  case (Cons p m)
  obtain key a where p: "p = (key, a)" by (cases p)
  from Cons.prems p have a: "a < length heap" and rest: "list_all (\<lambda>a. a < length heap) (map snd m)"
    and d: "distinct (map fst m)" and kn: "key \<notin> set (map fst m)"
    by simp_all
  from Cons.prems(2) a have inv: "hring_inv (heap ! a)" by (simp add: list_all_length)
  from kn have none: "map_of m key = None" by (simp add: map_of_eq_None_iff)
  show ?case
  proof (cases "latest_histogram (heap ! a)")
    case None
    then have step: "latest_histograms heap (p # m) acc = latest_histograms heap m acc"
      using a p by (simp add: latest_histogram_inv [OF inv])
    from Cons.IH [OF rest Cons.prems(2) d, of acc] obtain res where
      r: "latest_histograms heap m acc = Inr res"
      "\<forall>k. map_of res k = (case map_of m k of None \<Rightarrow> map_of acc k
           | Some a \<Rightarrow> (case latest_histogram (heap ! a) of None \<Rightarrow> map_of acc k | Some s \<Rightarrow> Some s))"
      by blast
    show ?thesis using step r p None none by auto
  next
    case (Some s)
    then have step: "latest_histograms heap (p # m) acc = latest_histograms heap m (gomap_store key s acc)"
      using a p by (simp add: latest_histogram_inv [OF inv])
    from Cons.IH [OF rest Cons.prems(2) d, of "gomap_store key s acc"] obtain res where
      r: "latest_histograms heap m (gomap_store key s acc) = Inr res"
      "\<forall>k. map_of res k = (case map_of m k of None \<Rightarrow> map_of (gomap_store key s acc) k
           | Some a \<Rightarrow> (case latest_histogram (heap ! a) of
                None \<Rightarrow> map_of (gomap_store key s acc) k | Some s \<Rightarrow> Some s))"
      by blast
    show ?thesis using step r p Some none
      by (auto simp: map_of_gomap_store split: option.splits)
  qed
qed

lemma Registry_LatestSnapshot_wf:
  assumes wf: "reg_wf r"
  shows "\<exists>snap. Registry_LatestSnapshot r = Inr snap \<and>
     (\<forall>k. map_of (Gauges snap) k =
        (case map_of (gauges r) k of None \<Rightarrow> None | Some a \<Rightarrow> latest_value (rings r ! a))) \<and>
     (\<forall>k. map_of (Counters snap) k =
        (case map_of (counters r) k of None \<Rightarrow> None | Some a \<Rightarrow> latest_value (rings r ! a))) \<and>
     (\<forall>k. map_of (Histograms snap) k =
        (case map_of (histograms r) k of None \<Rightarrow> None | Some a \<Rightarrow> latest_histogram (hrings r ! a)))"
proof -
  from wf have bg: "list_all (\<lambda>a. a < length (rings r)) (map snd (gauges r))"
    and bc: "list_all (\<lambda>a. a < length (rings r)) (map snd (counters r))"
    and bh: "list_all (\<lambda>a. a < length (hrings r)) (map snd (histograms r))"
    and ri: "list_all ring_inv (rings r)" and hi: "list_all hring_inv (hrings r)"
    and dg: "distinct (map fst (gauges r))" and dc: "distinct (map fst (counters r))"
    and dh: "distinct (map fst (histograms r))"
    by (simp_all add: reg_wf_def)
  from latest_scalars_wf [OF bg ri dg, of "[]"] obtain g where
    g: "latest_scalars (rings r) (gauges r) [] = Inr g"
    and g0: "\<forall>k. map_of g k = (case map_of (gauges r) k of None \<Rightarrow> map_of [] k
          | Some a \<Rightarrow> (case latest_value (rings r ! a) of None \<Rightarrow> map_of [] k | Some s \<Rightarrow> Some s))"
    by blast
  from latest_scalars_wf [OF bc ri dc, of "[]"] obtain c where
    c: "latest_scalars (rings r) (counters r) [] = Inr c"
    and c0: "\<forall>k. map_of c k = (case map_of (counters r) k of None \<Rightarrow> map_of [] k
          | Some a \<Rightarrow> (case latest_value (rings r ! a) of None \<Rightarrow> map_of [] k | Some s \<Rightarrow> Some s))"
    by blast
  from latest_histograms_wf [OF bh hi dh, of "[]"] obtain h where
    h: "latest_histograms (hrings r) (histograms r) [] = Inr h"
    and h0: "\<forall>k. map_of h k = (case map_of (histograms r) k of None \<Rightarrow> map_of [] k
          | Some a \<Rightarrow> (case latest_histogram (hrings r ! a) of None \<Rightarrow> map_of [] k | Some s \<Rightarrow> Some s))"
    by blast
  from g0 have g1: "\<forall>k. map_of g k = (case map_of (gauges r) k of None \<Rightarrow> None
          | Some a \<Rightarrow> latest_value (rings r ! a))"
    by (auto split: option.split)
  from c0 have c1: "\<forall>k. map_of c k = (case map_of (counters r) k of None \<Rightarrow> None
          | Some a \<Rightarrow> latest_value (rings r ! a))"
    by (auto split: option.split)
  from h0 have h1: "\<forall>k. map_of h k = (case map_of (histograms r) k of None \<Rightarrow> None
          | Some a \<Rightarrow> latest_histogram (hrings r ! a))"
    by (auto split: option.split)
  from g c h g1 c1 h1 show ?thesis by (simp add: Registry_LatestSnapshot_def)
qed

subsection \<open>Variants and keys\<close>

text \<open>
  Claim C1, as stated, fails: after the gauge sample, the counter sample for
  \<open>("s1", "x")\<close> is stored in a counter ring, nothing reports or counts a conflict, and
  the latest snapshot has a \<open>Counters\<close> entry for the key.
\<close>

theorem variant_conflict_counterexample:
  "processMetric NewRegistry ''s1'' ''i1'' (Some gauge_then_counter) = Inr registry_after_conflict \<and>
   Registry_LatestSnapshot registry_after_conflict =
     Inr \<lparr>Gauges = [(key_s1_x, \<lparr>Ts = 1, Val = 3\<rparr>)],
          Counters = [(key_s1_x, \<lparr>Ts = 2, Val = 7\<rparr>)], Histograms = []\<rparr>"
proof -
  have "Registry_LatestSnapshot registry_after_conflict =
     Inr \<lparr>Gauges = [(key_s1_x, \<lparr>Ts = 1, Val = 3\<rparr>)],
          Counters = [(key_s1_x, \<lparr>Ts = 2, Val = 7\<rparr>)], Histograms = []\<rparr>"
    by (simp add: Registry_LatestSnapshot_def registry_after_conflict_def Latest_def slot_def
        ring_of_one_def)
  with ingest_conflict show ?thesis by simp
qed

lemma pointer_in_heap:
  "list_all (\<lambda>a. a < n) (map snd m) \<Longrightarrow> map_of m k = Some a \<Longrightarrow> a < (n :: nat)"
  using map_of_Some_snd [of m k a] by (auto simp: list_all_iff)

text \<open>
  Claim C1, amended. The registry keeps one map for each variant and binds no key to a
  variant. In a well-formed registry where the key has a gauge ring \<open>a\<close> and no counter
  ring yet, a counter sample for the key is accepted: \<open>processMetric\<close> completes, the
  gauge map and the gauge ring are unchanged, the key gets a counter ring of its own,
  and the latest snapshot has the counter sample under the key in \<open>Counters\<close> next to
  the gauge's latest value in \<open>Gauges\<close>.
\<close>

theorem variant_not_exclusive:
  assumes wf: "reg_wf r"
    and g: "map_of (gauges r) \<lparr>Service = service, Name = name\<rparr> = Some a"
    and c: "map_of (counters r) \<lparr>Service = service, Name = name\<rparr> = None"
  shows "\<exists>r' b snap.
     processMetric r service instance
       (Some \<lparr>Metric_Name = name, Labels = labels,
              Samples = [Some \<lparr>TimestampNs = ts, Value = Some (MetricSample_Counter v)\<rparr>]\<rparr>) = Inr r' \<and>
     gauges r' = gauges r \<and> rings r' ! a = rings r ! a \<and>
     map_of (counters r') \<lparr>Service = service, Name = name\<rparr> = Some b \<and> b \<noteq> a \<and>
     Registry_LatestSnapshot r' = Inr snap \<and>
     map_of (Counters snap) \<lparr>Service = service, Name = name\<rparr> =
       Some \<lparr>Ts = ts, Val = float64_of_uint64 v\<rparr> \<and>
     map_of (Gauges snap) \<lparr>Service = service, Name = name\<rparr> = latest_value (rings r ! a)"
proof -
  let ?key = "\<lparr>Service = service, Name = name\<rparr>"
  let ?n = "length (rings r)"
  let ?fresh = "\<lparr>data = replicate 1000 zero_Sample, idx = 0, rsize = 1000\<rparr>"
  let ?s = "\<lparr>Ts = ts, Val = float64_of_uint64 v\<rparr>"
  define r1 where "r1 = r\<lparr>rings := rings r @ [?fresh], counters := counters r @ [(?key, ?n)]\<rparr>"
  define r2 where "r2 = r1\<lparr>rings := (rings r1)[?n := pushed (rings r1 ! ?n) ?s]\<rparr>"
  have get: "GetCounterRing r service name = Inr (?n, r1)" and wf1: "reg_wf r1"
    using GetCounterRing_new [OF wf c] by (simp_all add: r1_def)
  have n1: "?n < length (rings r1)" by (simp add: r1_def)
  have push: "Push_at r1 ?n ?s = Inr r2" and wf2: "reg_wf r2"
    using Push_at_wf [OF wf1 n1, of ?s] by (simp_all add: r2_def)
  have run: "processMetric r service instance
       (Some \<lparr>Metric_Name = name, Labels = labels,
              Samples = [Some \<lparr>TimestampNs = ts, Value = Some (MetricSample_Counter v)\<rparr>]\<rparr>) = Inr r2"
    by (simp add: processMetric_def processSample_def get push)
  from wf have "list_all (\<lambda>a. a < ?n) (map snd (gauges r))" by (simp add: reg_wf_def)
  from pointer_in_heap [OF this g] have an: "a < ?n" .
  have same: "rings r2 ! a = rings r ! a"
    using an by (simp add: r2_def r1_def nth_append)
  have gs: "gauges r2 = gauges r" by (simp add: r2_def r1_def)
  have cb: "map_of (counters r2) ?key = Some ?n"
    using GetCounterRing_bound(1) [OF get] by (simp add: r2_def)
  have fresh: "rings r2 ! ?n = pushed ?fresh ?s" by (simp add: r2_def r1_def)
  have lv: "latest_value (rings r2 ! ?n) = Some ?s"
    unfolding fresh by (rule latest_value_pushed) (simp_all add: ring_inv_def)
  from Registry_LatestSnapshot_wf [OF wf2] obtain snap where
    snap: "Registry_LatestSnapshot r2 = Inr snap"
    and sg: "\<forall>k. map_of (Gauges snap) k =
        (case map_of (gauges r2) k of None \<Rightarrow> None | Some a \<Rightarrow> latest_value (rings r2 ! a))"
    and sc: "\<forall>k. map_of (Counters snap) k =
        (case map_of (counters r2) k of None \<Rightarrow> None | Some a \<Rightarrow> latest_value (rings r2 ! a))"
    by blast
  from sc cb lv have 1: "map_of (Counters snap) ?key = Some ?s" by simp
  from sg gs g same have 2: "map_of (Gauges snap) ?key = latest_value (rings r ! a)" by simp
  from an have "?n \<noteq> a" by simp
  with run gs same cb snap 1 2 show ?thesis by blast
qed

lemma reg_wf_one_gauge: "reg_wf registry_one_gauge"
  by (simp add: reg_wf_def registry_one_gauge_def ring_of_one_def ring_inv_def)

theorem variant_not_exclusive_witness:
  "reg_wf registry_one_gauge \<and>
   map_of (gauges registry_one_gauge) \<lparr>Service = ''s1'', Name = ''x''\<rparr> = Some 0 \<and>
   map_of (counters registry_one_gauge) \<lparr>Service = ''s1'', Name = ''x''\<rparr> = None \<and>
   (\<exists>r' b snap.
     processMetric registry_one_gauge ''s1'' ''i1''
       (Some \<lparr>Metric_Name = ''x'', Labels = [],
              Samples = [Some \<lparr>TimestampNs = 2, Value = Some (MetricSample_Counter 7)\<rparr>]\<rparr>) = Inr r' \<and>
     gauges r' = gauges registry_one_gauge \<and>
     rings r' ! 0 = ring_of_one \<lparr>Ts = 1, Val = 3\<rparr> \<and>
     map_of (counters r') \<lparr>Service = ''s1'', Name = ''x''\<rparr> = Some b \<and> b \<noteq> 0 \<and>
     Registry_LatestSnapshot r' = Inr snap \<and>
     map_of (Counters snap) \<lparr>Service = ''s1'', Name = ''x''\<rparr> = Some \<lparr>Ts = 2, Val = 7\<rparr> \<and>
     map_of (Gauges snap) \<lparr>Service = ''s1'', Name = ''x''\<rparr> = Some \<lparr>Ts = 1, Val = 3\<rparr>)"
proof -
  have g: "map_of (gauges registry_one_gauge) \<lparr>Service = ''s1'', Name = ''x''\<rparr> = Some 0"
    by (simp add: registry_one_gauge_def key_s1_x_def)
  have c: "map_of (counters registry_one_gauge) \<lparr>Service = ''s1'', Name = ''x''\<rparr> = None"
    by (simp add: registry_one_gauge_def)
  have r0: "rings registry_one_gauge ! 0 = ring_of_one \<lparr>Ts = 1, Val = 3\<rparr>"
    by (simp add: registry_one_gauge_def)
  have lv: "latest_value (ring_of_one \<lparr>Ts = 1, Val = 3\<rparr>) = Some \<lparr>Ts = 1, Val = 3\<rparr>"
    by (simp add: latest_value_def Latest_def slot_def ring_of_one_def)
  from variant_not_exclusive [OF reg_wf_one_gauge g c, of "''i1''" "[]" 2 7]
  show ?thesis using reg_wf_one_gauge g c
    by (simp add: r0 lv float64_of_uint64_7)
qed

subsection \<open>Histogram samples\<close>

text \<open>
  Claim C5, as stated, fails: a histogram sample with two bounds and one count is
  accepted and stored as it is.
\<close>

theorem histogram_length_counterexample:
  "processMetric NewRegistry ''s1'' ''i1'' (Some short_histogram) = Inr registry_short_histogram \<and>
   HistogramRing_Latest (hrings registry_short_histogram ! 0) =
     Inr (\<lparr>HistogramData_Ts = 5, Bounds = [1, 2], Counts = [9]\<rparr>, True) \<and>
   length [9 :: 64 word] \<noteq> length [1, 2 :: float64]"
  by (simp add: ingest_defs short_histogram_def registry_short_histogram_def
      HistogramRing_Latest_def)

lemma GetHistogramRing_new:
  assumes absent: "map_of (histograms r) \<lparr>Service = service, Name = name\<rparr> = None"
  shows "GetHistogramRing r service name =
     Inr (length (hrings r),
          r\<lparr>hrings := hrings r @ [\<lparr>hdata = replicate 500 zero_HistogramData, hidx = 0, hsize = 500\<rparr>],
            histograms := histograms r @ [(\<lparr>Service = service, Name = name\<rparr>, length (hrings r))]\<rparr>)"
  using absent
  by (simp add: GetHistogramRing_def GetHistogramRing_locked_def NewHistogramRing_Default
      gomap_store_fresh Let_def)

text \<open>
  Claim C5, amended. The ingest path stores a histogram sample as it is received: the
  \<open>HistogramData\<close> pushed into the key's histogram ring (and read back by \<open>Latest\<close>)
  has the sample's timestamp, bounds and counts, whatever the two lengths are. No
  relation between \<open>len(counts)\<close> and \<open>len(bounds)\<close> is checked.
\<close>

theorem histogram_stored_as_received:
  assumes wf: "reg_wf r"
    and nowrap: "\<forall>a. map_of (histograms r) \<lparr>Service = service, Name = name\<rparr> = Some a \<longrightarrow>
                     hidx (hrings r ! a) + 1 \<noteq> 0"
  shows "\<exists>r' a.
     processMetric r service instance
       (Some \<lparr>Metric_Name = name, Labels = labels,
              Samples = [Some \<lparr>TimestampNs = ts,
                               Value = Some (MetricSample_Histogram (Some h))\<rparr>]\<rparr>) = Inr r' \<and>
     map_of (histograms r') \<lparr>Service = service, Name = name\<rparr> = Some a \<and>
     HistogramRing_Latest (hrings r' ! a) =
       Inr (\<lparr>HistogramData_Ts = ts, Bounds = Histogram_Bounds h, Counts = Histogram_Counts h\<rparr>, True)"
proof -
  let ?key = "\<lparr>Service = service, Name = name\<rparr>"
  let ?hd = "\<lparr>HistogramData_Ts = ts, Bounds = Histogram_Bounds h, Counts = Histogram_Counts h\<rparr>"
  let ?m = "Some \<lparr>Metric_Name = name, Labels = labels,
              Samples = [Some \<lparr>TimestampNs = ts,
                               Value = Some (MetricSample_Histogram (Some h))\<rparr>]\<rparr>"
  show ?thesis
  proof (cases "map_of (histograms r) ?key")
    case (Some a)
    then have get: "GetHistogramRing r service name = Inr (a, r)" by (rule GetHistogramRing_present)
    from wf have "list_all (\<lambda>a. a < length (hrings r)) (map snd (histograms r))"
      and all: "list_all hring_inv (hrings r)"
      by (simp_all add: reg_wf_def)
    from pointer_in_heap [OF this(1) Some] have a: "a < length (hrings r)" .
    with all have inv: "hring_inv (hrings r ! a)" by (simp add: list_all_length)
    let ?r' = "r\<lparr>hrings := (hrings r)[a := hpushed (hrings r ! a) ?hd]\<rparr>"
    have push: "HistogramRing_Push_at r a ?hd = Inr ?r'"
      using a by (simp add: HistogramRing_Push_at_def HistogramRing_Push_inv [OF inv])
    have run: "processMetric r service instance ?m = Inr ?r'"
      by (simp add: processMetric_def processSample_def get push)
    from nowrap Some have "hidx (hrings r ! a) + 1 \<noteq> 0" by simp
    from HistogramRing_Latest_hpushed [OF inv this, of ?hd] a
    have "HistogramRing_Latest (hrings ?r' ! a) = Inr (?hd, True)" by simp
    moreover have "map_of (histograms ?r') ?key = Some a" using Some by simp
    ultimately show ?thesis using run by blast
  next
    case None
    let ?n = "length (hrings r)"
    let ?fresh = "\<lparr>hdata = replicate 500 zero_HistogramData, hidx = 0, hsize = 500\<rparr>"
    let ?r1 = "r\<lparr>hrings := hrings r @ [?fresh], histograms := histograms r @ [(?key, ?n)]\<rparr>"
    let ?r' = "?r1\<lparr>hrings := (hrings ?r1)[?n := hpushed ?fresh ?hd]\<rparr>"
    have get: "GetHistogramRing r service name = Inr (?n, ?r1)"
      using None by (rule GetHistogramRing_new)
    have push: "HistogramRing_Push_at ?r1 ?n ?hd = Inr ?r'"
      by (simp add: HistogramRing_Push_at_def HistogramRing_Push_inv [OF hring_inv_Default])
    have run: "processMetric r service instance ?m = Inr ?r'"
      by (simp add: processMetric_def processSample_def get push)
    have "HistogramRing_Latest (hpushed ?fresh ?hd) = Inr (?hd, True)"
      by (rule HistogramRing_Latest_hpushed) (simp_all add: hring_inv_def)
    then have "HistogramRing_Latest (hrings ?r' ! ?n) = Inr (?hd, True)" by simp
    moreover have "map_of (histograms ?r') ?key = Some ?n"
      using GetHistogramRing_bound(1) [OF get] by simp
    ultimately show ?thesis using run by blast
  qed
qed

theorem histogram_stored_as_received_witness:
  "reg_wf NewRegistry \<and>
   (\<exists>r' a.
     processMetric NewRegistry ''s1'' ''i1'' (Some short_histogram) = Inr r' \<and>
     map_of (histograms r') \<lparr>Service = ''s1'', Name = ''h''\<rparr> = Some a \<and>
     HistogramRing_Latest (hrings r' ! a) =
       Inr (\<lparr>HistogramData_Ts = 5, Bounds = [1, 2], Counts = [9]\<rparr>, True))"
proof -
  have nw: "\<forall>a. map_of (histograms NewRegistry) \<lparr>Service = ''s1'', Name = ''h''\<rparr> = Some a \<longrightarrow>
                     hidx (hrings NewRegistry ! a) + 1 \<noteq> 0"
    by (simp add: NewRegistry_def)
  from histogram_stored_as_received [OF reg_wf_NewRegistry nw, of "''i1''" "[]" 5
      "\<lparr>Histogram_Bounds = [1, 2], Histogram_Counts = [9]\<rparr>"]
  show ?thesis using reg_wf_NewRegistry by (simp add: short_histogram_def)
qed

section \<open>Properties of the broadcast\<close>

subsection \<open>The message of one client\<close>












subsection \<open>Full mailboxes\<close>

lemma try_send_full: "send_cap c \<le> length (send c) \<Longrightarrow> try_send c m = c"
  by (simp add: try_send_def)

lemma broadcastSnapshot_full:
  assumes snap: "Registry_LatestSnapshot r = Inr snapshot"
    and mem: "(p, c) \<in> set (clients h)" and full: "send_cap c \<le> length (send c)"
  shows "\<exists>h'. broadcastSnapshot r clock h = Inr h' \<and> map fst (clients h') = map fst (clients h) \<and>
              (p, c) \<in> set (clients h') \<and> updates h' = updates h"
proof -
  let ?f = "\<lambda>(p, client). (p, try_send client (buildClientMessage client snapshot (clock p)))"
  let ?h' = "h\<lparr>clients := map ?f (clients h)\<rparr>"
  have run: "broadcastSnapshot r clock h = Inr ?h'"
    by (simp add: broadcastSnapshot_def snap)
  have keys: "map fst (clients ?h') = map fst (clients h)"
    by (simp add: case_prod_beta comp_def)
  have "?f (p, c) = (p, c)" using try_send_full [OF full] by simp
  moreover from mem have "?f (p, c) \<in> set (map ?f (clients h))" by (simp only: set_map) (rule imageI)
  ultimately have "(p, c) \<in> set (clients ?h')" by simp
  with run keys show ?thesis by simp
qed

lemma StartBroadcastLoop_full:
  "list_all (\<lambda>t. \<exists>snapshot. Registry_LatestSnapshot (fst t) = Inr snapshot) ticks \<Longrightarrow>
   (p, c) \<in> set (clients h) \<Longrightarrow> send_cap c \<le> length (send c) \<Longrightarrow>
   \<exists>h'. StartBroadcastLoop ticks h = Inr h' \<and> map fst (clients h') = map fst (clients h) \<and>
        (p, c) \<in> set (clients h') \<and> updates h' = updates h"
proof (induction ticks arbitrary: h)
  case Nil
  then show ?case by simp
next
  case (Cons t ticks)
  obtain r clock where t: "t = (r, clock)" by (cases t)
  from Cons.prems(1) t obtain snapshot where snap: "Registry_LatestSnapshot r = Inr snapshot"
    and rest: "list_all (\<lambda>t. \<exists>snapshot. Registry_LatestSnapshot (fst t) = Inr snapshot) ticks"
    by auto
  from broadcastSnapshot_full [OF snap Cons.prems(2,3), of clock] obtain h1 where
    b: "broadcastSnapshot r clock h = Inr h1" and k1: "map fst (clients h1) = map fst (clients h)"
    and m1: "(p, c) \<in> set (clients h1)" and u1: "updates h1 = updates h"
    by blast
  from Cons.IH [OF rest m1 Cons.prems(3)] obtain h' where
    "StartBroadcastLoop ticks h1 = Inr h'" "map fst (clients h') = map fst (clients h1)"
    "(p, c) \<in> set (clients h')" "updates h' = updates h1"
    by blast
  with b k1 u1 t show ?case by simp
qed

lemma snapshot_NewRegistry:
  "Registry_LatestSnapshot NewRegistry = Inr \<lparr>Gauges = [], Counters = [], Histograms = []\<rparr>"
  by (simp add: Registry_LatestSnapshot_def NewRegistry_def)

lemma first_two_ticks_fill:
  "StartBroadcastLoop first_two_ticks hub_cap2 = Inr hub_cap2_full"
  by (simp add: first_two_ticks_def hub_cap2_def hub_cap2_full_def client_cap2_full_def
      broadcastSnapshot_def snapshot_NewRegistry buildClientMessage_def try_send_def
      convertGauges_def convertCounters_def convertHistograms_def tick_message_def)

lemma last_three_ticks_drop:
  "StartBroadcastLoop last_three_ticks hub_cap2_full = Inr hub_cap2_full"
  by (simp add: last_three_ticks_def hub_cap2_full_def client_cap2_full_def
      broadcastSnapshot_def snapshot_NewRegistry buildClientMessage_def try_send_def)

lemma StartBroadcastLoop_append:
  "StartBroadcastLoop (xs @ ys) h =
     (case StartBroadcastLoop xs h of Inl p \<Rightarrow> Inl p | Inr h' \<Rightarrow> StartBroadcastLoop ys h')"
  by (induction xs arbitrary: h) (auto split: sum.splits)

text \<open>
  Claim C2, as stated, fails: no drop counter exists. With a mailbox of capacity 2 and
  five ticks, the hub after the five ticks is the hub after the first two: the two
  queued messages, and no trace of the three that were dropped.
\<close>

theorem drop_counter_counterexample:
  "StartBroadcastLoop first_two_ticks hub_cap2 = Inr hub_cap2_full \<and>
   StartBroadcastLoop five_ticks hub_cap2 = Inr hub_cap2_full \<and>
   length (send client_cap2_full) = 2"
  by (simp add: five_ticks_def StartBroadcastLoop_append first_two_ticks_fill
      last_three_ticks_drop client_cap2_full_def)

lemma snapshot_of_wf:
  "list_all (\<lambda>t. reg_wf (fst t)) ticks \<Longrightarrow>
   list_all (\<lambda>t. \<exists>snapshot. Registry_LatestSnapshot (fst t) = Inr snapshot) ticks"
  unfolding list_all_iff using Registry_LatestSnapshot_wf by blast

text \<open>
  Claim C2, amended. Through any number of broadcasts, each on a well-formed registry, a
  client whose mailbox is full stays as it is and stays connected: every message for
  it is dropped and nothing is counted (the client has no drop counter; its queue,
  capacity and subscriptions are all its state, and they are unchanged), the set of
  connected clients is the same, and the hub's update queue is untouched. In the
  overload scenario the mailbox of capacity 2 holds the messages of the first two
  ticks, and the three later ticks leave it so.
\<close>

theorem broadcast_full_mailbox:
  assumes "list_all (\<lambda>t. reg_wf (fst t)) ticks"
    and "(p, c) \<in> set (clients h)" and "send_cap c \<le> length (send c)"
  shows "\<exists>h'. StartBroadcastLoop ticks h = Inr h' \<and> map fst (clients h') = map fst (clients h) \<and>
              (p, c) \<in> set (clients h') \<and> updates h' = updates h"
  by (rule StartBroadcastLoop_full [OF snapshot_of_wf [OF assms(1)] assms(2,3)])

theorem broadcast_full_mailbox_witness:
  "list_all (\<lambda>t. reg_wf (fst t)) last_three_ticks \<and>
   (1, client_cap2_full) \<in> set (clients hub_cap2_full) \<and>
   send_cap client_cap2_full \<le> length (send client_cap2_full) \<and>
   (\<exists>h'. StartBroadcastLoop last_three_ticks hub_cap2_full = Inr h' \<and>
         map fst (clients h') = [1] \<and> (1, client_cap2_full) \<in> set (clients h') \<and>
         updates h' = [])"
proof -
  have w: "list_all (\<lambda>t. reg_wf (fst t)) last_three_ticks"
    by (simp add: last_three_ticks_def reg_wf_NewRegistry)
  have m: "(1, client_cap2_full) \<in> set (clients hub_cap2_full)"
    by (simp add: hub_cap2_full_def)
  have f: "send_cap client_cap2_full \<le> length (send client_cap2_full)"
    by (simp add: client_cap2_full_def)
  from broadcast_full_mailbox [OF w m f] obtain h' where
    "StartBroadcastLoop last_three_ticks hub_cap2_full = Inr h'"
    "map fst (clients h') = map fst (clients hub_cap2_full)"
    "(1, client_cap2_full) \<in> set (clients h')" "updates h' = updates hub_cap2_full"
    by blast
  then have "StartBroadcastLoop last_three_ticks hub_cap2_full = Inr h' \<and>
         map fst (clients h') = [1] \<and> (1, client_cap2_full) \<in> set (clients h') \<and>
         updates h' = []"
    by (simp add: hub_cap2_full_def)
  then have e: "\<exists>h'. StartBroadcastLoop last_three_ticks hub_cap2_full = Inr h' \<and>
         map fst (clients h') = [1] \<and> (1, client_cap2_full) \<in> set (clients h') \<and>
         updates h' = []"
    by (rule exI)
  show ?thesis by (rule conjI [OF w conjI [OF m conjI [OF f e]]])
qed

end
